theory Spec2Isabelle
  imports Main "HOL-Library.Word"
begin

unbundle bit_operations_syntax

section \<open>Filter blocks of an sstable (sstable/filter.go)\<close>

text \<open>
  The per-block filter writer cuts one filter segment per 2KiB window of table offsets
  and closes the blob with a table of little-endian 32-bit boundaries and a shift byte;
  the per-block reader maps a block offset to its segment and asks the filter policy.
  Byte slices are lists of 8-bit words, \<open>uint32\<close> and \<open>uint64\<close> are 32-bit and 64-bit
  words, Go's \<open>int\<close> (the result of \<open>len\<close>, the key counter) is \<open>int\<close> or \<open>nat\<close>, and
  every conversion between them that the source writes is written here as well.
\<close>

subsection \<open>Bytes, slices and errors\<close>

type_synonym byte = "8 word"
type_synonym uint32 = "32 word"
type_synonym uint64 = "64 word"

text \<open>
  \<open>FilterTooLong\<close> is the error value \<open>pebble/table: filter data is too long\<close>;
  \<open>OutOfRange\<close> is the run-time panic of a slice expression or an index out of range.
\<close>

datatype error = FilterTooLong | OutOfRange

text \<open>
  The slice expression \<open>s[lo:hi]\<close>. The bounds are integers as Go computes them
  (\<open>len(data)-1\<close> is negative on an empty slice). Go checks \<open>hi\<close> against the capacity;
  the model has no spare capacity, so it panics whenever Go may.
\<close>

definition subslice :: "'a list \<Rightarrow> int \<Rightarrow> int \<Rightarrow> error + 'a list" where
  "subslice s lo hi =
     (if 0 \<le> lo \<and> lo \<le> hi \<and> hi \<le> int (length s)
      then Inr (drop (nat lo) (take (nat hi) s))
      else Inl OutOfRange)"

text \<open>The index expression \<open>s[i]\<close>.\<close>

definition index_at :: "'a list \<Rightarrow> int \<Rightarrow> error + 'a" where
  "index_at s i = (if 0 \<le> i \<and> i < int (length s) then Inr (s ! nat i) else Inl OutOfRange)"

text \<open>\<open>binary.LittleEndian.Uint32\<close> and \<open>binary.LittleEndian.PutUint32\<close>.\<close>

definition Uint32 :: "byte list \<Rightarrow> error + uint32" where
  "Uint32 b =
     (if length b < 4 then Inl OutOfRange
      else Inr (ucast (b ! 0) OR push_bit 8 (ucast (b ! 1))
                OR push_bit 16 (ucast (b ! 2)) OR push_bit 24 (ucast (b ! 3))))"

definition PutUint32 :: "uint32 \<Rightarrow> byte list" where
  "PutUint32 x = [ucast x, ucast (drop_bit 8 x), ucast (drop_bit 16 x), ucast (drop_bit 24 x)]"

subsection \<open>The filter policy\<close>

text \<open>
  Modelled from the spec: the package \<open>db\<close> with \<open>db.FilterPolicy\<close>, \<open>db.FilterWriter\<close> and
  \<open>db.FilterType\<close> is imported by filter.go and is not part of the source at hand. A policy
  has a name, a stateless query \<open>MayContain\<close> over filter bytes, and the encoding
  \<open>Encode\<close> of a list of accumulated keys into filter bytes. A filter writer is the
  accumulator of one session: \<open>AddKey\<close> adds one key, \<open>Finish\<close> appends the finished
  filter of the accumulated keys to the given bytes, returns the combined buffer and
  resets the accumulator.
\<close>

datatype FilterType = BlockFilter | TableFilter

record FilterPolicy =
  Name :: string
  MayContain :: "FilterType \<Rightarrow> byte list \<Rightarrow> byte list \<Rightarrow> bool"
  Encode :: "FilterType \<Rightarrow> byte list list \<Rightarrow> byte list"

record FilterWriter =
  encode :: "byte list list \<Rightarrow> byte list"
  pending :: "byte list list"

definition NewWriter :: "FilterPolicy \<Rightarrow> FilterType \<Rightarrow> FilterWriter" where
  "NewWriter p t = \<lparr>encode = Encode p t, pending = []\<rparr>"

definition AddKey :: "FilterWriter \<Rightarrow> byte list \<Rightarrow> FilterWriter" where
  "AddKey w key = w\<lparr>pending := pending w @ [key]\<rparr>"

definition Finish :: "FilterWriter \<Rightarrow> byte list \<Rightarrow> byte list \<times> FilterWriter" where
  "Finish w dst = (dst @ encode w (pending w), w\<lparr>pending := []\<rparr>)"

subsection \<open>The per-block reader\<close>

text \<open>
  The struct \<open>blockFilterReader\<close>; its field \<open>policy\<close> is \<open>r_policy\<close> here, since the
  writer below has a field of the same name.
\<close>

record blockFilterReader =
  r_policy :: FilterPolicy
  lastOffset :: uint32
  shift :: uint32

text \<open>
  \<open>newBlockFilterReader\<close> returns \<open>nil\<close> (\<open>None\<close>) or a reader; every slice expression
  and read it performs can panic in the model. The source rebinds \<open>data\<close> to the segment
  bytes \<open>data[:lastOffset]\<close>; they are \<open>segs\<close> here, and the table bytes are \<open>offs\<close>.
\<close>

definition newBlockFilterReader ::
  "byte list \<Rightarrow> FilterPolicy \<Rightarrow> error + blockFilterReader option" where
  "newBlockFilterReader data policy =
     (if length data < 5 then Inr None
      else case subslice data (int (length data) - 5) (int (length data)) of
        Inl e \<Rightarrow> Inl e
      | Inr tail \<Rightarrow>
     (case Uint32 tail of
        Inl e \<Rightarrow> Inl e
      | Inr lastOff \<Rightarrow>
     (if (ucast lastOff :: uint64) > word_of_int (int (length data) - 5) then Inr None
      else case subslice data 0 (uint lastOff) of
        Inl e \<Rightarrow> Inl e
      | Inr segs \<Rightarrow>
     (case subslice data (uint lastOff) (int (length data) - 1) of
        Inl e \<Rightarrow> Inl e
      | Inr offs \<Rightarrow>
     (case index_at data (int (length data) - 1) of
        Inl e \<Rightarrow> Inl e
      | Inr b \<Rightarrow>
     (let sh = (ucast b :: uint32) in
      if (int (length offs)) AND 3 \<noteq> 0 then Inr None
      else Inr (Some \<lparr>r_policy = policy, lastOffset = lastOff, shift = sh\<rparr>)))))))"

text \<open>
  \<open>mayContain\<close>. The index is a \<open>uint64\<close>, and so are \<open>4*index+0\<close> and \<open>4*index+4\<close>,
  which wrap around; \<open>uint64(len(offsets)/4-1)\<close> converts an integer that is \<open>-1\<close> when
  the table region is shorter than 4 bytes. A shift count of 64 or more gives 0, in Go
  as for \<open>drop_bit\<close>.
\<close>

definition mayContain ::
  "blockFilterReader \<Rightarrow> byte list \<Rightarrow> uint64 \<Rightarrow> byte list \<Rightarrow> error + bool" where
  "mayContain f data blockOffset key =
     (case subslice data 0 (uint (lastOffset f)) of
        Inl e \<Rightarrow> Inl e
      | Inr segs \<Rightarrow>
     (case subslice data (uint (lastOffset f)) (int (length data) - 1) of
        Inl e \<Rightarrow> Inl e
      | Inr offs \<Rightarrow>
     (let index = drop_bit (unat (shift f)) blockOffset in
      if index \<ge> word_of_int (int (length offs) div 4 - 1) then Inr True
      else case subslice offs (uint (4 * index + 0)) (int (length offs)) of
        Inl e \<Rightarrow> Inl e
      | Inr bi \<Rightarrow>
     (case Uint32 bi of
        Inl e \<Rightarrow> Inl e
      | Inr i \<Rightarrow>
     (case subslice offs (uint (4 * index + 4)) (int (length offs)) of
        Inl e \<Rightarrow> Inl e
      | Inr bj \<Rightarrow>
     (case Uint32 bj of
        Inl e \<Rightarrow> Inl e
      | Inr j \<Rightarrow>
     (if i \<ge> j \<or> (ucast j :: uint64) > word_of_int (int (length segs)) then Inr True
      else case subslice segs (uint i) (uint j) of
        Inl e \<Rightarrow> Inl e
      | Inr seg \<Rightarrow> Inr (MayContain (r_policy f) BlockFilter seg key))))))))"

subsection \<open>The per-block writer\<close>

text \<open>
  \<open>filterBaseLog\<close> being 11 means a new filter for every 2KiB of table data.
\<close>

definition filterBaseLog :: nat where
  "filterBaseLog = 11"

text \<open>
  The struct \<open>blockFilterWriter\<close>. A \<open>nil\<close> slice is the empty list. The methods mutate
  the writer and may return an error, so each is a function from the writer to the
  error (if any) and the writer as the call leaves it. \<open>len\<close> gives a non-negative
  \<open>int\<close>, so \<open>uint64(len(...))\<close> is the length itself. The counter is not bounded here:
  every counted key is held by the accumulator, so it stays far below the end of the
  range of \<open>int\<close>.
\<close>

record blockFilterWriter =
  policy :: FilterPolicy
  writer :: FilterWriter
  count :: int
  data :: "byte list"
  offsets :: "uint32 list"

definition newBlockFilterWriter :: "FilterPolicy \<Rightarrow> blockFilterWriter" where
  "newBlockFilterWriter p =
     \<lparr>policy = p, writer = NewWriter p BlockFilter, count = 0, data = [], offsets = []\<rparr>"

definition hasKeys :: "blockFilterWriter \<Rightarrow> bool" where
  "hasKeys f = (count f \<noteq> 0)"

definition addKey :: "blockFilterWriter \<Rightarrow> byte list \<Rightarrow> blockFilterWriter" where
  "addKey f key = f\<lparr>count := count f + 1, writer := AddKey (writer f) key\<rparr>"

definition appendOffset :: "blockFilterWriter \<Rightarrow> error option \<times> blockFilterWriter" where
  "appendOffset f =
     (let len = length (data f) in
      if len > 2 ^ 32 - 1 then (Some FilterTooLong, f)
      else (None, f\<lparr>offsets := offsets f @ [of_nat len]\<rparr>))"

definition emit :: "blockFilterWriter \<Rightarrow> error option \<times> blockFilterWriter" where
  "emit f =
     (case appendOffset f of
        (Some err, f') \<Rightarrow> (Some err, f')
      | (None, f') \<Rightarrow>
          if \<not> hasKeys f' then (None, f')
          else (let (d, w) = Finish (writer f') (data f')
                in (None, f'\<lparr>data := d, writer := w, count := 0\<rparr>)))"

function finishBlock :: "blockFilterWriter \<Rightarrow> uint64 \<Rightarrow> error option \<times> blockFilterWriter" where
  "finishBlock f blockOffset =
     (let i = drop_bit filterBaseLog blockOffset in
      if unat i > length (offsets f) then
        (case emit f of
           (Some err, f') \<Rightarrow> (Some err, f')
         | (None, f') \<Rightarrow> finishBlock f' blockOffset)
      else (None, f))"
  by pat_completeness auto
termination
  by (relation "measure (\<lambda>(f, b). unat (drop_bit filterBaseLog b) - length (offsets f))")
     (auto simp: emit_def appendOffset_def Let_def Finish_def split: if_splits)

declare finishBlock.simps [simp del]

text \<open>
  \<open>finish\<close> returns the blob or the error; the loop over \<open>f.offsets\<close> appends the four
  bytes of each entry to \<open>f.data\<close>.
\<close>

definition finish :: "blockFilterWriter \<Rightarrow> (error + byte list) \<times> blockFilterWriter" where
  "finish f =
     (case (if hasKeys f then emit f else (None, f)) of
        (Some err, f1) \<Rightarrow> (Inl err, f1)
      | (None, f1) \<Rightarrow>
     (case appendOffset f1 of
        (Some err, f2) \<Rightarrow> (Inl err, f2)
      | (None, f2) \<Rightarrow>
     (let f3 = f2\<lparr>data := foldl (\<lambda>d x. d @ PutUint32 x) (data f2) (offsets f2)\<rparr>;
          f4 = f3\<lparr>data := data f3 @ [of_nat filterBaseLog]\<rparr>
      in (Inr (data f4), f4))))"

definition metaName :: "blockFilterWriter \<Rightarrow> string" where
  "metaName f = ''filter.'' @ Name (policy f)"

definition policyName :: "blockFilterWriter \<Rightarrow> string" where
  "policyName f = Name (policy f)"

subsection \<open>The whole-table reader and writer\<close>

text \<open>
  The structs \<open>tableFilterReader\<close> and \<open>tableFilterWriter\<close>; their fields and methods
  carry the prefix \<open>t_\<close>, the names without it being those of the per-block writer.
\<close>

record tableFilterReader =
  tr_policy :: FilterPolicy

definition newTableFilterReader :: "FilterPolicy \<Rightarrow> tableFilterReader" where
  "newTableFilterReader p = \<lparr>tr_policy = p\<rparr>"

definition t_mayContain :: "tableFilterReader \<Rightarrow> byte list \<Rightarrow> byte list \<Rightarrow> bool" where
  "t_mayContain f d key = MayContain (tr_policy f) TableFilter d key"

record tableFilterWriter =
  t_policy :: FilterPolicy
  t_writer :: FilterWriter
  t_count :: int

definition newTableFilterWriter :: "FilterPolicy \<Rightarrow> tableFilterWriter" where
  "newTableFilterWriter p = \<lparr>t_policy = p, t_writer = NewWriter p TableFilter, t_count = 0\<rparr>"

definition t_addKey :: "tableFilterWriter \<Rightarrow> byte list \<Rightarrow> tableFilterWriter" where
  "t_addKey f key = f\<lparr>t_count := t_count f + 1, t_writer := AddKey (t_writer f) key\<rparr>"

definition t_finishBlock :: "tableFilterWriter \<Rightarrow> uint64 \<Rightarrow> error option \<times> tableFilterWriter" where
  "t_finishBlock f blockOffset = (None, f)"

definition t_finish :: "tableFilterWriter \<Rightarrow> (error + byte list) \<times> tableFilterWriter" where
  "t_finish f =
     (if t_count f = 0 then (Inr [], f)
      else (let (d, w) = Finish (t_writer f) [] in (Inr d, f\<lparr>t_writer := w\<rparr>)))"

definition t_metaName :: "tableFilterWriter \<Rightarrow> string" where
  "t_metaName f = ''fullfilter.'' @ Name (t_policy f)"

definition t_policyName :: "tableFilterWriter \<Rightarrow> string" where
  "t_policyName f = Name (t_policy f)"

subsection \<open>The blob as the data model describes it\<close>

text \<open>
  The blob is \<open>segments || offset table || shift byte\<close>. The sentinel is the last entry
  of the table: the little-endian value of the four bytes before the shift byte. The
  table starts where the sentinel says the segments end; \<open>tableEntry\<close> is the entry at
  an index of the table bytes.
\<close>

definition sentinel :: "byte list \<Rightarrow> uint32" where
  "sentinel D = (case Uint32 (drop (length D - 5) D) of Inr s \<Rightarrow> s | Inl e \<Rightarrow> 0)"

definition tableEntry :: "byte list \<Rightarrow> nat \<Rightarrow> uint32" where
  "tableEntry offs i = (case Uint32 (drop (4 * i) offs) of Inr w \<Rightarrow> w | Inl e \<Rightarrow> 0)"

text \<open>
  The query as the reader's contract words it: the index is the block offset shifted by
  the shift byte; an index at or beyond the number \<open>N\<close> of real segments (the table has
  \<open>N + 1\<close> entries) answers true; so does a boundary pair with \<open>low \<ge> high\<close> or with
  \<open>high\<close> beyond the segment data; otherwise the policy is asked over
  \<open>segments[low:high]\<close> with the kind of per-block filters.
\<close>

definition mayContain_spec ::
  "FilterPolicy \<Rightarrow> byte list \<Rightarrow> uint64 \<Rightarrow> byte list \<Rightarrow> bool" where
  "mayContain_spec P D blockOffset key =
     (let segments = take (unat (sentinel D)) D;
          table = drop (unat (sentinel D)) (butlast D);
          N = length table div 4 - 1;
          index = unat blockOffset div 2 ^ unat (last D)
      in if index \<ge> N then True
         else let low = unat (tableEntry table index);
                  high = unat (tableEntry table (index + 1))
              in if low \<ge> high \<or> high > length segments then True
                 else MayContain P BlockFilter (drop low (take high segments)) key)"

subsection \<open>A policy to run the code on\<close>

text \<open>
  A small policy for concrete runs: the filter of a list of keys is the bytes of the
  keys, one after the other, and a key may be contained in a filter when each of its
  bytes occurs there. It has no false negatives, and it is exact on keys of one byte.
\<close>

definition bytePolicy :: FilterPolicy where
  "bytePolicy =
     \<lparr>Name = ''bytes'',
      MayContain = (\<lambda>t filter key. set key \<subseteq> set filter),
      Encode = (\<lambda>t keys. concat keys)\<rparr>"

subsection \<open>Runs of the writer\<close>

text \<open>
  The segment data once the pending keys, if any, have been finished into it: what
  \<open>emit\<close> leaves in \<open>f.data\<close>.
\<close>

definition flushed :: "blockFilterWriter \<Rightarrow> byte list" where
  "flushed f = (if hasKeys f then data f @ encode (writer f) (pending (writer f)) else data f)"

text \<open>
  A table build calls \<open>addKey\<close> and \<open>finishBlock\<close> in some order. \<open>apply_call\<close> keeps the
  writer as a call leaves it, whether or not the call returned an error.
\<close>

datatype call = CallAddKey "byte list" | CallFinishBlock uint64

fun apply_call :: "blockFilterWriter \<Rightarrow> call \<Rightarrow> blockFilterWriter" where
  "apply_call f (CallAddKey key) = addKey f key"
| "apply_call f (CallFinishBlock blockOffset) = snd (finishBlock f blockOffset)"

text \<open>
  The boundaries recorded so far are in order and none lies beyond the segment data.
\<close>

definition offsets_ok :: "blockFilterWriter \<Rightarrow> bool" where
  "offsets_ok f =
     (sorted (map unat (offsets f)) \<and> (\<forall>x \<in> set (offsets f). unat x \<le> length (data f)))"

subsection \<open>A table build\<close>

text \<open>
  Modelled from the spec: the table writer, which calls the filter writer, is not part
  of the source at hand. While data blocks are written, each key of a block is given to
  \<open>addKey\<close>; after the block is finished, \<open>finishBlock\<close> is called with an offset; the
  build stops at the first error. A block is the list of its keys and the offset given
  to \<open>finishBlock\<close> after them.
\<close>

fun feed ::
  "blockFilterWriter \<Rightarrow> (byte list list \<times> uint64) list \<Rightarrow> error option \<times> blockFilterWriter" where
  "feed f [] = (None, f)"
| "feed f ((keys, blockOffset) # blocks) =
     (case finishBlock (foldl addKey f keys) blockOffset of
        (Some err, f') \<Rightarrow> (Some err, f')
      | (None, f') \<Rightarrow> feed f' blocks)"

text \<open>
  The offset at which a block starts when \<open>finishBlock\<close> is given the offset at which
  the block ends: 0 for the first block, the offset given for the block before it
  otherwise.
\<close>

definition blockStart :: "(byte list list \<times> uint64) list \<Rightarrow> nat \<Rightarrow> uint64" where
  "blockStart blocks i = (if i = 0 then 0 else snd (blocks ! (i - 1)))"

text \<open>
  The keys behind the bytes, for the proofs: \<open>segs\<close> lists the keys of each emitted
  segment. The bytes of a segment without keys are empty, those of any other are the
  policy's filter of its keys; \<open>boundary\<close> is the length of the first \<open>i\<close> segments. A
  writer \<open>represents\<close> the segments when its data and boundaries are theirs; the pending
  keys of a writer are \<open>placed\<close> in a final list of segments when that list extends the
  emitted ones and holds the pending keys in the next segment; \<open>blob_of\<close> is the layout
  of a finished blob over its segments.
\<close>

definition segmentBytes :: "FilterPolicy \<Rightarrow> byte list list \<Rightarrow> byte list" where
  "segmentBytes P ks = (if ks = [] then [] else Encode P BlockFilter ks)"

definition boundary :: "FilterPolicy \<Rightarrow> byte list list list \<Rightarrow> nat \<Rightarrow> nat" where
  "boundary P segs i = length (concat (map (segmentBytes P) (take i segs)))"

definition represents :: "FilterPolicy \<Rightarrow> blockFilterWriter \<Rightarrow> byte list list list \<Rightarrow> bool" where
  "represents P f segs =
     (encode (writer f) = Encode P BlockFilter
      \<and> count f = int (length (pending (writer f)))
      \<and> data f = concat (map (segmentBytes P) segs)
      \<and> length (offsets f) = length segs
      \<and> (\<forall>i < length segs. unat (offsets f ! i) = boundary P segs i))"

definition placed :: "blockFilterWriter \<Rightarrow> byte list list list \<Rightarrow> byte list list list \<Rightarrow> bool" where
  "placed f segs final =
     (take (length segs) final = segs
      \<and> (pending (writer f) \<noteq> [] \<longrightarrow>
           length segs < length final \<and> set (pending (writer f)) \<subseteq> set (final ! length segs)))"

definition blob_of :: "FilterPolicy \<Rightarrow> byte list \<Rightarrow> byte list list list \<Rightarrow> bool" where
  "blob_of P blob segs =
     (\<exists>offs. blob = concat (map (segmentBytes P) segs) @ concat (map PutUint32 offs)
                 @ [of_nat filterBaseLog]
        \<and> length offs = Suc (length segs)
        \<and> (\<forall>i \<le> length segs. unat (offs ! i) = boundary P segs i))"

section \<open>Properties\<close>

subsection \<open>Words, slices and the byte order\<close>

lemma Uint32_PutUint32: "Uint32 (PutUint32 x @ r) = Inr x"
proof -
  have "ucast (ucast x :: byte) OR push_bit 8 (ucast (ucast (drop_bit 8 x) :: byte))
        OR push_bit 16 (ucast (ucast (drop_bit 16 x) :: byte))
        OR push_bit 24 (ucast (ucast (drop_bit 24 x) :: byte)) = x" (is "?w = x")
  proof (rule bit_word_eqI)
    fix n assume n: "n < LENGTH(32)"
    show "bit ?w n = bit x n"
      using n by (cases "n < 8"; cases "n < 16"; cases "n < 24") (auto simp: bit_simps)
  qed
  then show ?thesis
    by (simp add: Uint32_def PutUint32_def)
qed

lemma length_PutUint32 [simp]: "length (PutUint32 x) = 4"
  by (simp add: PutUint32_def)

lemma length_concat_PutUint32 [simp]: "length (concat (map PutUint32 xs)) = 4 * length xs"
  by (induction xs) auto

lemma foldl_PutUint32: "foldl (\<lambda>d x. d @ PutUint32 x) d xs = d @ concat (map PutUint32 xs)"
  by (induction xs arbitrary: d) auto

lemma Uint32_table:
  assumes "i < length xs"
  shows "Uint32 (drop (4 * i) (concat (map PutUint32 xs) @ r)) = Inr (xs ! i)"
  using assms
proof (induction xs arbitrary: i)
  case Nil
  then show ?case by simp
next
  case (Cons x xs)
  show ?case
  proof (cases i)
    case 0
    then show ?thesis by (simp add: Uint32_PutUint32)
  next
    case (Suc k)
    with Cons show ?thesis by simp
  qed
qed

lemma Uint32_sentinel: "5 \<le> length D \<Longrightarrow> Uint32 (drop (length D - 5) D) = Inr (sentinel D)"
  by (simp add: sentinel_def Uint32_def)

lemma Uint32_tableEntry:
  "4 * i + 4 \<le> length offs \<Longrightarrow> Uint32 (drop (4 * i) offs) = Inr (tableEntry offs i)"
  by (simp add: tableEntry_def Uint32_def)

lemma unat_uint64_of_nat: "n < 2 ^ 63 \<Longrightarrow> unat (word_of_nat n :: uint64) = n"
  by (rule of_nat_inverse [OF refl]) simp

lemma unat_ucast_32_64: "unat (ucast (s :: uint32) :: uint64) = unat s"
proof -
  have "unat s < 2 ^ 32"
    using unsigned_less [of s] by simp
  then show ?thesis
    by (simp add: unsigned_ucast_eq take_bit_nat_eq_self)
qed

lemma ucast_le_len:
  fixes s :: uint32
  assumes "n < 2 ^ 63"
  shows "((ucast s :: uint64) > word_of_nat n) = (unat s > n)"
  by (simp add: word_less_nat_alt unat_uint64_of_nat [OF assms] unat_ucast_32_64)

lemma uint64_ge_of_nat:
  "n < 2 ^ 63 \<Longrightarrow> ((x :: uint64) \<ge> word_of_nat n) = (unat x \<ge> n)"
  by (simp add: word_le_nat_alt unat_uint64_of_nat)

lemma unat_4_times:
  fixes x :: uint64
  assumes "unat x < 2 ^ 61"
  shows "unat (4 * x) = 4 * unat x"
proof -
  have "unat (4 :: uint64) * unat x < 2 ^ LENGTH(64)"
    using assms by simp
  then have "unat (4 * x) = unat (4 :: uint64) * unat x"
    by (simp only: unat_mult_lem)
  then show ?thesis by simp
qed

lemma unat_4_times_plus_4:
  fixes x :: uint64
  assumes "unat x < 2 ^ 61"
  shows "unat (4 * x + 4) = 4 * unat x + 4"
proof -
  have "unat (4 * x) + unat (4 :: uint64) < 2 ^ LENGTH(64)"
    using assms by (simp add: unat_4_times)
  then have "unat (4 * x + 4) = unat (4 * x) + unat (4 :: uint64)"
    by (simp only: unat_add_lem)
  then show ?thesis using assms by (simp add: unat_4_times)
qed

lemma and_3_int: "(x::int) AND 3 = x mod 4"
  using take_bit_eq_mask [of 2 x] by (simp add: take_bit_eq_mod mask_eq_exp_minus_1)

lemma subslice_nat:
  "subslice s (int a) (int b) =
     (if a \<le> b \<and> b \<le> length s then Inr (drop a (take b s)) else Inl OutOfRange)"
  by (simp add: subslice_def)

lemma subslice_unat:
  "subslice s (uint a) (int b) =
     (if unat a \<le> b \<and> b \<le> length s then Inr (drop (unat a) (take b s))
      else Inl OutOfRange)"
  unfolding uint_nat by (rule subslice_nat)

lemma subslice_unat2:
  "subslice s (uint a) (uint b) =
     (if unat a \<le> unat b \<and> unat b \<le> length s then Inr (drop (unat a) (take (unat b) s))
      else Inl OutOfRange)"
  unfolding uint_nat by (rule subslice_nat)

lemma subslice_0_unat:
  "subslice s 0 (uint b) = (if unat b \<le> length s then Inr (take (unat b) s) else Inl OutOfRange)"
  using subslice_nat [of s 0 "unat b"] unfolding uint_nat by simp

subsection \<open>The reader\<close>

lemma newBlockFilterReader_eq:
  assumes "length D < 2 ^ 63"
  shows "newBlockFilterReader D P =
    (if length D < 5 \<or> unat (sentinel D) > length D - 5
        \<or> (length D - 1 - unat (sentinel D)) mod 4 \<noteq> 0
     then Inr None
     else Inr (Some \<lparr>r_policy = P, lastOffset = sentinel D, shift = ucast (last D)\<rparr>))"
proof (cases "length D < 5")
  case True
  then show ?thesis by (simp add: newBlockFilterReader_def)
next
  case False
  then have len: "5 \<le> length D" by simp
  have i5: "int (length D) - 5 = int (length D - 5)"
    and i1: "int (length D) - 1 = int (length D - 1)"
    using len by simp_all
  have tail: "subslice D (int (length D) - 5) (int (length D)) = Inr (drop (length D - 5) D)"
    unfolding i5 subslice_nat by simp
  have cmp: "((ucast (sentinel D) :: uint64) > word_of_nat (length D) - 5)
        = (unat (sentinel D) > length D - 5)"
    using ucast_le_len [of "length D - 5" "sentinel D"] assms len by simp
  show ?thesis
  proof (cases "unat (sentinel D) > length D - 5")
    case True
    then show ?thesis
      using len
      by (simp add: newBlockFilterReader_def tail Uint32_sentinel [OF len] cmp)
  next
    case le: False
    have s1: "subslice D 0 (uint (sentinel D)) = Inr (take (unat (sentinel D)) D)"
      unfolding subslice_0_unat using le len by simp
    have s2: "subslice D (uint (sentinel D)) (int (length D) - 1)
        = Inr (drop (unat (sentinel D)) (take (length D - 1) D))"
      unfolding i1 subslice_unat using le len by simp
    have ix: "index_at D (int (length D) - 1) = Inr (last D)"
      using len by (cases D rule: rev_cases) (auto simp: index_at_def last_conv_nth)
    have nz: "(int n mod 4 = 0) = (n mod 4 = 0)" for n
      by presburger
    show ?thesis
      using len le
      by (simp add: newBlockFilterReader_def tail Uint32_sentinel [OF len] cmp s1 s2 ix
          and_3_int nz Let_def del: of_nat_diff)
  qed
qed

lemma mayContain_steps:
  fixes f :: blockFilterReader and D :: "byte list" and b :: uint64
  defines "s \<equiv> unat (lastOffset f)"
  defines "L \<equiv> length D - 1 - s"
  defines "offs \<equiv> drop s (butlast D)"
  defines "index \<equiv> drop_bit (unat (shift f)) b"
  defines "idx \<equiv> unat b div 2 ^ unat (shift f)"
  assumes s: "unat (lastOffset f) + 5 \<le> length D" and len: "length D < 2 ^ 63"
  shows "subslice D 0 (uint (lastOffset f)) = Inr (take s D)"
    and "subslice D (uint (lastOffset f)) (int (length D) - 1) = Inr offs"
    and "length offs = L"
    and "(index \<ge> word_of_int (int L div 4 - 1)) = (idx \<ge> L div 4 - 1)"
    and "idx < L div 4 - 1 \<Longrightarrow>
          subslice offs (uint (4 * index + 0)) (int L) = Inr (drop (4 * idx) offs)"
    and "idx < L div 4 - 1 \<Longrightarrow> Uint32 (drop (4 * idx) offs) = Inr (tableEntry offs idx)"
    and "idx < L div 4 - 1 \<Longrightarrow>
          subslice offs (uint (4 * index + 4)) (int L) = Inr (drop (4 * (idx + 1)) offs)"
    and "idx < L div 4 - 1 \<Longrightarrow>
          Uint32 (drop (4 * (idx + 1)) offs) = Inr (tableEntry offs (idx + 1))"
    and "((ucast j :: uint64) > word_of_int (int s)) = (unat (j :: uint32) > s)"
proof -
  have i1: "int (length D) - 1 = int (length D - 1)"
    using s by simp
  show "subslice D 0 (uint (lastOffset f)) = Inr (take s D)"
    unfolding subslice_0_unat s_def using s by simp
  show "subslice D (uint (lastOffset f)) (int (length D) - 1) = Inr offs"
    unfolding i1 subslice_unat offs_def s_def using s by (simp add: butlast_conv_take)
  show L: "length offs = L"
    unfolding offs_def L_def using s by simp
  have L4: "4 \<le> L" unfolding L_def s_def using s by simp
  have N: "int L div 4 - 1 = int (L div 4 - 1)"
    using L4 by (simp add: zdiv_int of_nat_diff)
  have N63: "L div 4 - 1 < 2 ^ 63" unfolding L_def using len by simp
  have idx: "unat index = idx"
    unfolding index_def idx_def
    using unat_drop_bit_eq [of "unat (shift f)" b] drop_bit_eq_div [of "unat (shift f)" "unat b"]
    by (rule trans)
  show "(index \<ge> word_of_int (int L div 4 - 1)) = (idx \<ge> L div 4 - 1)"
    unfolding N using uint64_ge_of_nat [OF N63, of index] idx by simp
  have s63: "s < 2 ^ 63" unfolding s_def using len s by simp
  show "((ucast j :: uint64) > word_of_int (int s)) = (unat j > s)"
    using ucast_le_len [OF s63, of j] by simp
  {
    assume lt: "idx < L div 4 - 1"
    have "4 * i + 8 \<le> n" if "i < n div 4 - 1" for i n :: nat
      using that by presburger
    from this [OF lt] have b8: "4 * idx + 8 \<le> L" .
    have i61: "unat index < 2 ^ 61"
      using lt N63 idx L_def len by simp
    have u0: "uint (4 * index + 0) = int (4 * idx)"
      using unat_4_times [OF i61] idx by (simp add: uint_nat del: of_nat_unat of_nat_mult)
    have u4: "uint (4 * index + 4) = int (4 * (idx + 1))"
      using unat_4_times_plus_4 [OF i61] idx
      by (simp add: uint_nat del: of_nat_unat of_nat_mult of_nat_add)
    show "subslice offs (uint (4 * index + 0)) (int L) = Inr (drop (4 * idx) offs)"
      unfolding u0 subslice_nat using b8 L by simp
    show "subslice offs (uint (4 * index + 4)) (int L) = Inr (drop (4 * (idx + 1)) offs)"
      unfolding u4 subslice_nat using b8 L by simp
    show "Uint32 (drop (4 * idx) offs) = Inr (tableEntry offs idx)"
      by (rule Uint32_tableEntry) (use b8 L in simp)
    show "Uint32 (drop (4 * (idx + 1)) offs) = Inr (tableEntry offs (idx + 1))"
      by (rule Uint32_tableEntry) (use b8 L in simp)
  }
qed

lemma mayContain_eq:
  assumes s: "unat (lastOffset f) + 5 \<le> length D"
    and len: "length D < 2 ^ 63"
  shows "mayContain f D b k =
    Inr (let segments = take (unat (lastOffset f)) D;
          table = drop (unat (lastOffset f)) (butlast D);
          N = length table div 4 - 1;
          index = unat b div 2 ^ unat (shift f)
      in if index \<ge> N then True
         else let low = unat (tableEntry table index);
                  high = unat (tableEntry table (index + 1))
              in if low \<ge> high \<or> high > length segments then True
                 else MayContain (r_policy f) BlockFilter (drop low (take high segments)) k)"
proof -
  note st = mayContain_steps [OF s len]
  let ?L = "length D - 1 - unat (lastOffset f)"
  let ?idx = "unat b div 2 ^ unat (shift f)"
  have ij: "(i \<ge> j) = (unat i \<ge> unat j)" for i j :: uint32
    by (simp add: word_le_nat_alt)
  have ls: "length (take (unat (lastOffset f)) D) = unat (lastOffset f)"
    using s by simp
  show ?thesis
  proof (cases "?idx \<ge> ?L div 4 - 1")
    case True
    then show ?thesis
      unfolding mayContain_def by (simp only: st(1-4) sum.case Let_def if_True)
  next
    case False
    then have lt: "?idx < ?L div 4 - 1" by simp
    show ?thesis
      unfolding mayContain_def
      using False
      by (simp only: st(1-4) st(5-8) [OF lt] st(9) ls sum.case Let_def if_False ij subslice_unat2)
         (auto simp: Let_def)
  qed
qed

lemma reader_Some:
  assumes "newBlockFilterReader D P = Inr (Some r)" and "length D < 2 ^ 63"
  shows "r = \<lparr>r_policy = P, lastOffset = sentinel D, shift = ucast (last D)\<rparr>"
    and "unat (sentinel D) + 5 \<le> length D"
    and "(length D - 1 - unat (sentinel D)) mod 4 = 0"
  using assms(1) unfolding newBlockFilterReader_eq [OF assms(2)]
  by (auto split: if_splits)

lemma unat_ucast_8_32: "unat (ucast (x :: byte) :: uint32) = unat x"
proof -
  have "unat x < 2 ^ 8"
    using unsigned_less [of x] by simp
  then have "unat x < 2 ^ 32"
    by simp
  then show ?thesis
    by (simp add: unsigned_ucast_eq take_bit_nat_eq_self)
qed

text \<open>
  Claim C5. Constructing a per-block reader from a raw blob never raises, and it returns
  the nil reader exactly when the blob is structurally invalid: it is shorter than 5
  bytes, or the sentinel exceeds the space left for segment data, or the region between
  the position the sentinel names and the shift byte has a length not divisible by 4.
  In particular a blob of length 3 is unusable. Blob lengths are those of a Go slice.
\<close>

theorem c5_newBlockFilterReader_validates:
  assumes "length D < 2 ^ 63"
  shows "(\<forall>e. newBlockFilterReader D P \<noteq> Inl e)
    \<and> ((newBlockFilterReader D P = Inr None) =
         (length D < 5 \<or> unat (sentinel D) > length D - 5
          \<or> (length D - 1 - unat (sentinel D)) mod 4 \<noteq> 0))
    \<and> (length D = 3 \<longrightarrow> newBlockFilterReader D P = Inr None)"
  unfolding newBlockFilterReader_eq [OF assms] by simp

text \<open>
  The theorem at a blob of length 3, at the minimal blob, and at a blob of 6 bytes whose
  table region has 5 bytes.
\<close>

theorem c5_newBlockFilterReader_validates_witness:
  "length [1, 2, 3 :: byte] < 2 ^ 63
   \<and> newBlockFilterReader [1, 2, 3] bytePolicy = Inr None
   \<and> length [0, 0, 0, 0, 11 :: byte] < 2 ^ 63
   \<and> newBlockFilterReader [0, 0, 0, 0, 11] bytePolicy \<noteq> Inr None
   \<and> newBlockFilterReader [0, 0, 0, 0, 0, 7 :: byte] bytePolicy = Inr None"
  using c5_newBlockFilterReader_validates [of "[1, 2, 3]" bytePolicy]
    c5_newBlockFilterReader_validates [of "[0, 0, 0, 0, 11]" bytePolicy]
    c5_newBlockFilterReader_validates [of "[0, 0, 0, 0, 0, 7]" bytePolicy]
  by (simp add: sentinel_def Uint32_def)

text \<open>
  Claim C2. For every reader constructed from a blob, every block offset and every key,
  \<open>mayContain\<close> on that blob returns what the contract says: with the index
  \<open>blockOffset >> shift\<close>, true when the index is at or beyond the number of real
  segments, true when the boundary pair there has \<open>low \<ge> high\<close> or \<open>high\<close> beyond the
  segment data, and otherwise the policy's answer over \<open>segments[low:high]\<close> with the
  per-block kind.
\<close>

theorem c2_mayContain_query:
  assumes "newBlockFilterReader D P = Inr (Some r)" and "length D < 2 ^ 63"
  shows "mayContain r D blockOffset key = Inr (mayContain_spec P D blockOffset key)"
proof -
  note r = reader_Some [OF assms]
  have "unat (lastOffset r) + 5 \<le> length D"
    using r(2) by (simp add: r(1))
  from mayContain_eq [OF this assms(2)] show ?thesis
    by (simp add: r(1) mayContain_spec_def unat_ucast_8_32)
qed

text \<open>
  The theorem at a blob of two segments of one byte each: a query the policy answers
  with true, one it answers with false, and one beyond the last segment.
\<close>

theorem c2_mayContain_query_witness:
  "newBlockFilterReader [1, 3, 0, 0, 0, 0, 1, 0, 0, 0, 2, 0, 0, 0, 11] bytePolicy
     = Inr (Some \<lparr>r_policy = bytePolicy, lastOffset = 2, shift = 11\<rparr>)
   \<and> length [1, 3, 0, 0, 0, 0, 1, 0, 0, 0, 2, 0, 0, 0, 11 :: byte] < 2 ^ 63
   \<and> mayContain \<lparr>r_policy = bytePolicy, lastOffset = 2, shift = 11\<rparr>
        [1, 3, 0, 0, 0, 0, 1, 0, 0, 0, 2, 0, 0, 0, 11] 2048 [3] = Inr True
   \<and> mayContain \<lparr>r_policy = bytePolicy, lastOffset = 2, shift = 11\<rparr>
        [1, 3, 0, 0, 0, 0, 1, 0, 0, 0, 2, 0, 0, 0, 11] 2048 [1] = Inr False
   \<and> mayContain \<lparr>r_policy = bytePolicy, lastOffset = 2, shift = 11\<rparr>
        [1, 3, 0, 0, 0, 0, 1, 0, 0, 0, 2, 0, 0, 0, 11] 4096 [1] = Inr True"
proof -
  let ?D = "[1, 3, 0, 0, 0, 0, 1, 0, 0, 0, 2, 0, 0, 0, 11 :: byte]"
  let ?r = "\<lparr>r_policy = bytePolicy, lastOffset = 2, shift = 11\<rparr>"
  have len: "length ?D < 2 ^ 63" by simp
  have r: "newBlockFilterReader ?D bytePolicy = Inr (Some ?r)"
    unfolding newBlockFilterReader_eq [OF len] by (simp add: sentinel_def Uint32_def)
  show ?thesis
    using c2_mayContain_query [OF r len, of 2048 "[3]"]
      c2_mayContain_query [OF r len, of 2048 "[1]"]
      c2_mayContain_query [OF r len, of 4096 "[1]"] r
    by (simp add: mayContain_spec_def sentinel_def tableEntry_def Uint32_def bytePolicy_def)
qed

text \<open>
  Claim C10. For every reader constructed from a blob and every block offset and key,
  every access of \<open>mayContain\<close> on that blob is in range: the two slice expressions
  that split the blob, the two slices of the table at \<open>4*index\<close> and \<open>4*index+4\<close>
  with their 4-byte reads, and the segment slice; so the call returns a value and does
  not panic.
\<close>

theorem c10_mayContain_in_bounds:
  assumes "newBlockFilterReader D P = Inr (Some r)" and "length D < 2 ^ 63"
  shows "\<exists>segs offs.
      subslice D 0 (uint (lastOffset r)) = Inr segs
    \<and> subslice D (uint (lastOffset r)) (int (length D) - 1) = Inr offs
    \<and> (let index = drop_bit (unat (shift r)) blockOffset in
        \<not> index \<ge> word_of_int (int (length offs) div 4 - 1) \<longrightarrow>
        (\<exists>bi i bj j.
            subslice offs (uint (4 * index + 0)) (int (length offs)) = Inr bi
          \<and> Uint32 bi = Inr i
          \<and> subslice offs (uint (4 * index + 4)) (int (length offs)) = Inr bj
          \<and> Uint32 bj = Inr j
          \<and> (\<not> (i \<ge> j \<or> (ucast j :: uint64) > word_of_int (int (length segs))) \<longrightarrow>
               (\<exists>seg. subslice segs (uint i) (uint j) = Inr seg))))
    \<and> (\<exists>v. mayContain r D blockOffset key = Inr v)"
proof -
  note r = reader_Some [OF assms]
  have s: "unat (lastOffset r) + 5 \<le> length D"
    using r(2) by (simp add: r(1))
  note st = mayContain_steps [OF s assms(2)]
  let ?s = "unat (lastOffset r)"
  let ?segs = "take ?s D"
  let ?offs = "drop ?s (butlast D)"
  let ?L = "length D - 1 - ?s"
  let ?index = "drop_bit (unat (shift r)) blockOffset"
  let ?idx = "unat blockOffset div 2 ^ unat (shift r)"
  have ls: "length ?segs = ?s"
    using s by simp
  have reads: "\<exists>bi i bj j.
            subslice ?offs (uint (4 * ?index + 0)) (int (length ?offs)) = Inr bi
          \<and> Uint32 bi = Inr i
          \<and> subslice ?offs (uint (4 * ?index + 4)) (int (length ?offs)) = Inr bj
          \<and> Uint32 bj = Inr j
          \<and> (\<not> (i \<ge> j \<or> (ucast j :: uint64) > word_of_int (int (length ?segs))) \<longrightarrow>
               (\<exists>seg. subslice ?segs (uint i) (uint j) = Inr seg))"
    if "\<not> ?index \<ge> word_of_int (int (length ?offs) div 4 - 1)"
  proof -
    from that have lt: "?idx < ?L div 4 - 1"
      unfolding st(3) st(4) by simp
    have "\<exists>seg. subslice ?segs (uint i) (uint j) = Inr seg"
      if "\<not> (i \<ge> j \<or> (ucast j :: uint64) > word_of_int (int (length ?segs)))" for i j :: uint32
    proof -
      from that have "unat i \<le> unat j" and "unat j \<le> ?s"
        unfolding ls st(9) by (simp_all add: word_le_nat_alt)
      then show ?thesis
        unfolding subslice_unat2 ls by simp
    qed
    then show ?thesis
      unfolding st(3) using st(5-8) [OF lt] by blast
  qed
  have "\<exists>v. mayContain r D blockOffset key = Inr v"
    unfolding mayContain_eq [OF s assms(2)] by simp
  with st(1,2) reads show ?thesis
    unfolding Let_def by blast
qed

text \<open>The theorem at the blob of two segments.\<close>

theorem c10_mayContain_in_bounds_witness:
  "newBlockFilterReader [1, 3, 0, 0, 0, 0, 1, 0, 0, 0, 2, 0, 0, 0, 11] bytePolicy
     = Inr (Some \<lparr>r_policy = bytePolicy, lastOffset = 2, shift = 11\<rparr>)
   \<and> length [1, 3, 0, 0, 0, 0, 1, 0, 0, 0, 2, 0, 0, 0, 11 :: byte] < 2 ^ 63
   \<and> (\<exists>v. mayContain \<lparr>r_policy = bytePolicy, lastOffset = 2, shift = 11\<rparr>
        [1, 3, 0, 0, 0, 0, 1, 0, 0, 0, 2, 0, 0, 0, 11] 2048 [3] = Inr v)"
proof -
  let ?D = "[1, 3, 0, 0, 0, 0, 1, 0, 0, 0, 2, 0, 0, 0, 11 :: byte]"
  let ?r = "\<lparr>r_policy = bytePolicy, lastOffset = 2, shift = 11\<rparr>"
  have len: "length ?D < 2 ^ 63" by simp
  have r: "newBlockFilterReader ?D bytePolicy = Inr (Some ?r)"
    unfolding newBlockFilterReader_eq [OF len] by (simp add: sentinel_def Uint32_def)
  show ?thesis
    using c10_mayContain_in_bounds [OF r len, of 2048 "[3]"] r len by blast
qed

subsection \<open>The writer\<close>

lemma appendOffset_eq:
  "appendOffset f =
     (if length (data f) > 2 ^ 32 - 1 then (Some FilterTooLong, f)
      else (None, f\<lparr>offsets := offsets f @ [of_nat (length (data f))]\<rparr>))"
  by (simp add: appendOffset_def Let_def)

lemma emit_eq:
  "emit f =
     (if length (data f) > 2 ^ 32 - 1 then (Some FilterTooLong, f)
      else (None, f\<lparr>offsets := offsets f @ [of_nat (length (data f))],
                     data := flushed f,
                     writer := (if hasKeys f then (writer f)\<lparr>pending := []\<rparr> else writer f),
                     count := 0\<rparr>))"
  by (simp add: emit_def appendOffset_eq flushed_def hasKeys_def Finish_def)

lemma finishBlock_done:
  "unat (drop_bit filterBaseLog b) \<le> length (offsets f) \<Longrightarrow> finishBlock f b = (None, f)"
  by (subst finishBlock.simps) simp

lemma finishBlock_step:
  "length (offsets f) < unat (drop_bit filterBaseLog b) \<Longrightarrow>
   finishBlock f b =
     (case emit f of (Some err, f') \<Rightarrow> (Some err, f') | (None, f') \<Rightarrow> finishBlock f' b)"
  by (subst finishBlock.simps) simp

lemma finishBlock_no_keys:
  assumes "count f = 0" and "length (data f) \<le> 2 ^ 32 - 1"
  shows "finishBlock f b =
    (None, f\<lparr>offsets := offsets f @
        replicate (unat (drop_bit filterBaseLog b) - length (offsets f))
          (of_nat (length (data f)))\<rparr>)"
  using assms
proof (induction "unat (drop_bit filterBaseLog b) - length (offsets f)" arbitrary: f)
  case 0
  then show ?case by (simp add: finishBlock_done)
next
  case (Suc k)
  let ?f' = "f\<lparr>offsets := offsets f @ [of_nat (length (data f))]\<rparr>"
  have lt: "length (offsets f) < unat (drop_bit filterBaseLog b)"
    using Suc.hyps(2) by simp
  have e: "emit f = (None, ?f')"
    using Suc.prems by (simp add: emit_eq flushed_def hasKeys_def)
  have k: "k = unat (drop_bit filterBaseLog b) - length (offsets ?f')"
    using Suc.hyps(2) by simp
  have "finishBlock ?f' b = (None, ?f'\<lparr>offsets := offsets ?f' @
        replicate (unat (drop_bit filterBaseLog b) - length (offsets ?f'))
          (of_nat (length (data ?f')))\<rparr>)"
    by (rule Suc.hyps(1) [OF k]) (use Suc.prems in simp_all)
  moreover have "unat (drop_bit filterBaseLog b) - length (offsets f) = Suc k"
    using Suc.hyps(2) by simp
  ultimately show ?case
    unfolding finishBlock_step [OF lt] e
    by (simp add: replicate_app_Cons_same)
qed

lemma finishBlock_no_keys_too_long:
  assumes "length (data f) > 2 ^ 32 - 1"
    and "length (offsets f) < unat (drop_bit filterBaseLog b)"
  shows "finishBlock f b = (Some FilterTooLong, f)"
  unfolding finishBlock_step [OF assms(2)] using assms(1) by (simp add: emit_eq)

text \<open>The loop of \<open>finishBlock\<close> in closed form.\<close>

lemma finishBlock_eq:
  "finishBlock f b =
    (let k = unat (drop_bit filterBaseLog b) - length (offsets f);
         f1 = snd (emit f)
     in if k = 0 then (None, f)
        else if length (data f) > 2 ^ 32 - 1 then (Some FilterTooLong, f)
        else if k = 1 \<or> length (flushed f) \<le> 2 ^ 32 - 1
          then (None, f1\<lparr>offsets := offsets f1 @ replicate (k - 1) (of_nat (length (flushed f)))\<rparr>)
        else (Some FilterTooLong, f1))"
proof (cases "unat (drop_bit filterBaseLog b) \<le> length (offsets f)")
  case True
  then show ?thesis by (simp add: finishBlock_done Let_def)
next
  case False
  then have lt: "length (offsets f) < unat (drop_bit filterBaseLog b)" by simp
  show ?thesis
  proof (cases "length (data f) > 2 ^ 32 - 1")
    case True
    then show ?thesis
      using lt by (simp add: finishBlock_no_keys_too_long Let_def)
  next
    case ok: False
    let ?f1 = "snd (emit f)"
    have e: "emit f = (None, ?f1)"
      using ok by (simp add: emit_eq)
    have f1: "count ?f1 = 0" "data ?f1 = flushed f"
      "length (offsets ?f1) = Suc (length (offsets f))"
      using ok by (simp_all add: emit_eq)
    have step: "finishBlock f b = finishBlock ?f1 b"
      unfolding finishBlock_step [OF lt] by (subst e) simp
    show ?thesis
    proof (cases "length (flushed f) \<le> 2 ^ 32 - 1")
      case True
      then show ?thesis
        unfolding step using finishBlock_no_keys [of ?f1 b] f1 lt ok
        by (simp add: Let_def)
    next
      case long: False
      show ?thesis
      proof (cases "unat (drop_bit filterBaseLog b) - length (offsets f) = 1")
        case True
        then have "unat (drop_bit filterBaseLog b) \<le> length (offsets ?f1)"
          using f1 by simp
        then show ?thesis
          unfolding step using True ok by (simp add: finishBlock_done Let_def)
      next
        case False
        then have "length (offsets ?f1) < unat (drop_bit filterBaseLog b)"
          using f1 lt by simp
        then show ?thesis
          unfolding step using finishBlock_no_keys_too_long [of ?f1 b] long f1 lt ok False
          by (simp add: Let_def)
      qed
    qed
  qed
qed

lemma length_flushed: "length (data f) \<le> length (flushed f)"
  by (simp add: flushed_def)

lemma finish_err:
  "length (flushed f) > 2 ^ 32 - 1 \<Longrightarrow> fst (finish f) = Inl FilterTooLong"
  by (cases "hasKeys f") (simp_all add: finish_def emit_eq appendOffset_eq flushed_def)

lemma finish_ok:
  assumes "length (flushed f) \<le> 2 ^ 32 - 1"
  shows "fst (finish f) =
      Inr (flushed f @ concat (map PutUint32 (offsets (snd (finish f)))) @ [of_nat filterBaseLog])"
    and "offsets (snd (finish f)) =
      (if hasKeys f then offsets f @ [of_nat (length (data f))] else offsets f)
        @ [of_nat (length (flushed f))]"
  using assms
  by (cases "hasKeys f"; simp add: finish_def emit_eq appendOffset_eq foldl_PutUint32 Let_def flushed_def)+

lemma emit_props:
  assumes "length (data f) \<le> 2 ^ 32 - 1"
  shows "fst (emit f) = None"
    and "offsets (snd (emit f)) = offsets f @ [of_nat (length (data f))]"
    and "data (snd (emit f)) = flushed f"
    and "count (snd (emit f)) = 0"
  using assms by (simp_all add: emit_eq)

text \<open>
  Claim C3 says that a successful \<open>finishBlock(blockOffset)\<close> leaves at least
  \<open>(blockOffset >> shift) + 1\<close> segments emitted. On a new writer \<open>finishBlock(0)\<close>
  succeeds and emits nothing.
\<close>

theorem c3_finishBlock_counterexample:
  "fst (finishBlock (newBlockFilterWriter bytePolicy) 0) = None
   \<and> \<not> unat (drop_bit filterBaseLog (0 :: uint64)) + 1
        \<le> length (offsets (snd (finishBlock (newBlockFilterWriter bytePolicy) 0)))"
  by (simp add: finishBlock_done newBlockFilterWriter_def)

lemma finishBlock_length_offsets:
  assumes "finishBlock f blockOffset = (None, f')"
  shows "length (offsets f') =
    max (length (offsets f)) (unat (drop_bit filterBaseLog blockOffset))"
proof (cases "unat (drop_bit filterBaseLog blockOffset) \<le> length (offsets f)")
  case True
  then show ?thesis
    using assms by (simp add: finishBlock_done)
next
  case False
  then have k: "unat (drop_bit filterBaseLog blockOffset) - length (offsets f) \<noteq> 0"
    by simp
  from assms have ok: "length (data f) \<le> 2 ^ 32 - 1"
    unfolding finishBlock_eq [of f blockOffset] Let_def using k
    by (auto split: if_splits)
  from assms have "length (offsets f') = length (offsets (snd (emit f)))
      + (unat (drop_bit filterBaseLog blockOffset) - length (offsets f) - 1)"
    unfolding finishBlock_eq [of f blockOffset] Let_def using k
    by (auto split: if_splits)
  then show ?thesis
    using False by (simp add: emit_props(2) [OF ok])
qed

text \<open>
  Claim C3, amended. After \<open>finishBlock(blockOffset)\<close> returns without error, the number
  of emitted segments is the larger of the number emitted before and
  \<open>blockOffset >> shift\<close>: the segments of all windows strictly before the one that
  covers \<open>blockOffset\<close> have been emitted, the segment of that window itself has not
  been emitted by this call.
\<close>

theorem c3_finishBlock_emitted:
  assumes "finishBlock f blockOffset = (None, f')"
  shows "length (offsets f') =
    max (length (offsets f)) (unat (drop_bit filterBaseLog blockOffset))"
  using assms by (rule finishBlock_length_offsets)

text \<open>The theorem at a new writer and the offset 4096.\<close>

theorem c3_finishBlock_emitted_witness:
  "finishBlock (newBlockFilterWriter bytePolicy) 4096
     = (None, (newBlockFilterWriter bytePolicy)\<lparr>offsets := [0, 0]\<rparr>)
   \<and> length (offsets ((newBlockFilterWriter bytePolicy)\<lparr>offsets := [0, 0]\<rparr>)) = 2
   \<and> max (length (offsets (newBlockFilterWriter bytePolicy)))
          (unat (drop_bit filterBaseLog (4096 :: uint64))) = 2"
proof -
  have run: "finishBlock (newBlockFilterWriter bytePolicy) 4096
     = (None, (newBlockFilterWriter bytePolicy)\<lparr>offsets := [0, 0]\<rparr>)"
    by (simp add: finishBlock_eq emit_eq flushed_def hasKeys_def newBlockFilterWriter_def
        filterBaseLog_def Let_def)
  show ?thesis
    using c3_finishBlock_emitted [OF run] run by simp
qed





text \<open>
  Claim C6. The only error of the writer is \<open>FilterTooLong\<close>, and it is returned exactly
  when the segment data is longer than \<open>2^32 - 1\<close> bytes at a moment a boundary or the
  sentinel is recorded: by \<open>appendOffset\<close> and \<open>emit\<close> for the data as it is, by
  \<open>finishBlock\<close> when the loop runs and the data is too long at its first boundary, or
  the loop runs twice or more and the flushed data is too long; by \<open>finish\<close> when the
  flushed data is too long. Otherwise no error is returned.
\<close>

theorem c6_filter_too_long:
  "fst (appendOffset f) = (if length (data f) > 2 ^ 32 - 1 then Some FilterTooLong else None)
   \<and> fst (emit f) = (if length (data f) > 2 ^ 32 - 1 then Some FilterTooLong else None)
   \<and> fst (finishBlock f blockOffset) =
       (let k = unat (drop_bit filterBaseLog blockOffset) - length (offsets f)
        in if 0 < k \<and> (length (data f) > 2 ^ 32 - 1
                        \<or> 1 < k \<and> length (flushed f) > 2 ^ 32 - 1)
           then Some FilterTooLong else None)
   \<and> fst (finish f) =
       (if length (flushed f) > 2 ^ 32 - 1 then Inl FilterTooLong
        else Inr (flushed f @ concat (map PutUint32 (offsets (snd (finish f))))
                   @ [of_nat filterBaseLog]))"
proof -
  have "fst (finishBlock f blockOffset) =
       (let k = unat (drop_bit filterBaseLog blockOffset) - length (offsets f)
        in if 0 < k \<and> (length (data f) > 2 ^ 32 - 1
                        \<or> 1 < k \<and> length (flushed f) > 2 ^ 32 - 1)
           then Some FilterTooLong else None)"
    unfolding finishBlock_eq [of f blockOffset] Let_def
    using length_flushed [of f] by auto
  moreover have "fst (finish f) =
       (if length (flushed f) > 2 ^ 32 - 1 then Inl FilterTooLong
        else Inr (flushed f @ concat (map PutUint32 (offsets (snd (finish f))))
                   @ [of_nat filterBaseLog]))"
    using finish_err [of f] finish_ok(1) [of f] by (cases "length (flushed f) > 2 ^ 32 - 1") simp_all
  ultimately show ?thesis
    by (simp add: appendOffset_eq emit_eq)
qed

text \<open>
  The theorem at a writer whose segment data has \<open>2^32\<close> bytes, one more than a
  boundary can hold, and at a new writer.
\<close>

theorem c6_filter_too_long_witness:
  "fst (appendOffset ((newBlockFilterWriter bytePolicy)\<lparr>data := replicate (2 ^ 32) 0\<rparr>))
     = Some FilterTooLong
   \<and> fst (finishBlock ((newBlockFilterWriter bytePolicy)\<lparr>data := replicate (2 ^ 32) 0\<rparr>) 2048)
     = Some FilterTooLong
   \<and> fst (finishBlock ((newBlockFilterWriter bytePolicy)\<lparr>data := replicate (2 ^ 32) 0\<rparr>) 0)
     = None
   \<and> fst (finish ((newBlockFilterWriter bytePolicy)\<lparr>data := replicate (2 ^ 32) 0\<rparr>))
     = Inl FilterTooLong
   \<and> fst (finishBlock (newBlockFilterWriter bytePolicy) 2048) = None"
  using c6_filter_too_long
      [of "(newBlockFilterWriter bytePolicy)\<lparr>data := replicate (2 ^ 32) 0\<rparr>" 2048]
    c6_filter_too_long
      [of "(newBlockFilterWriter bytePolicy)\<lparr>data := replicate (2 ^ 32) 0\<rparr>" 0]
    c6_filter_too_long [of "newBlockFilterWriter bytePolicy" 2048]
  by (simp add: newBlockFilterWriter_def flushed_def hasKeys_def filterBaseLog_def Let_def)

subsection \<open>The finished blob\<close>

lemma unat_of_nat_u32: "n \<le> 2 ^ 32 - 1 \<Longrightarrow> unat (of_nat n :: uint32) = n"
  by (rule of_nat_inverse [OF refl]) simp

lemma sentinel_blob:
  assumes "offs \<noteq> []"
  shows "sentinel (segs @ concat (map PutUint32 offs) @ [b]) = last offs"
proof -
  from assms obtain xs x where offs: "offs = xs @ [x]"
    by (cases offs rule: rev_cases) auto
  let ?blob = "segs @ concat (map PutUint32 offs) @ [b]"
  have "drop (length ?blob - 5) ?blob = PutUint32 x @ [b]"
    by (simp add: offs)
  then show ?thesis
    by (simp add: sentinel_def Uint32_PutUint32 offs)
qed

lemma finish_offsets_last:
  assumes "length (flushed f) \<le> 2 ^ 32 - 1"
  shows "offsets (snd (finish f)) \<noteq> []"
    and "unat (last (offsets (snd (finish f)))) = length (flushed f)"
  using assms by (simp_all add: finish_ok(2) unat_of_nat_u32)

lemma finish_reader:
  assumes "finish f = (Inr blob, f')" and "length blob < 2 ^ 63"
  shows "\<exists>segs r. blob = segs @ concat (map PutUint32 (offsets f')) @ [of_nat filterBaseLog]
      \<and> newBlockFilterReader blob P = Inr (Some r)
      \<and> r_policy r = P \<and> shift r = 11 \<and> unat (lastOffset r) = length segs"
proof -
  have ok: "length (flushed f) \<le> 2 ^ 32 - 1"
    using assms(1) finish_err [of f] by (cases "length (flushed f) \<le> 2 ^ 32 - 1") auto
  let ?offs = "offsets f'"
  have f': "f' = snd (finish f)" and b: "fst (finish f) = Inr blob"
    using assms(1) by simp_all
  have blob: "blob = flushed f @ concat (map PutUint32 ?offs) @ [of_nat filterBaseLog]"
    using finish_ok(1) [OF ok] b f' by simp
  have ne: "?offs \<noteq> []" and lst: "unat (last ?offs) = length (flushed f)"
    using finish_offsets_last [OF ok] f' by simp_all
  have sen: "sentinel blob = last ?offs"
    unfolding blob by (rule sentinel_blob [OF ne])
  have len: "length blob = length (flushed f) + 4 * length ?offs + 1"
    unfolding blob by simp
  have pos: "1 \<le> length ?offs"
    using ne by (cases ?offs) simp_all
  have c: "\<not> length blob < 5" "\<not> length blob - 5 < length (flushed f)"
    "(length blob - 1 - length (flushed f)) mod 4 = 0"
    using pos len by presburger+
  have lastb: "last blob = 11"
    unfolding blob by (simp add: filterBaseLog_def)
  have "newBlockFilterReader blob P =
      Inr (Some \<lparr>r_policy = P, lastOffset = last ?offs, shift = 11\<rparr>)"
    unfolding newBlockFilterReader_eq [OF assms(2)] sen lst
    using c by (simp add: lastb)
  with blob lst show ?thesis
    by auto
qed

text \<open>
  Claim C9. Every blob returned by a successful \<open>finish\<close> of the per-block writer is
  accepted by \<open>newBlockFilterReader\<close>: the constructor returns a reader, not nil; the
  reader's shift is 11 and its \<open>lastOffset\<close> is the length of the blob's segment data.
  The blob's length is that of a Go slice.
\<close>

theorem c9_finish_roundtrip:
  assumes "finish f = (Inr blob, f')" and "length blob < 2 ^ 63"
  shows "\<exists>segs r. blob = segs @ concat (map PutUint32 (offsets f')) @ [of_nat filterBaseLog]
      \<and> newBlockFilterReader blob P = Inr (Some r)
      \<and> r_policy r = P \<and> shift r = 11 \<and> unat (lastOffset r) = length segs"
  using assms by (rule finish_reader)

text \<open>The theorem at a writer with one pending key.\<close>

theorem c9_finish_roundtrip_witness:
  "finish (addKey (newBlockFilterWriter bytePolicy) [1])
     = (Inr [1, 0, 0, 0, 0, 1, 0, 0, 0, 11],
        (newBlockFilterWriter bytePolicy)
          \<lparr>data := [1, 0, 0, 0, 0, 1, 0, 0, 0, 11], offsets := [0, 1]\<rparr>)
   \<and> length [1, 0, 0, 0, 0, 1, 0, 0, 0, 11 :: byte] < 2 ^ 63
   \<and> (\<exists>r. newBlockFilterReader [1, 0, 0, 0, 0, 1, 0, 0, 0, 11] bytePolicy = Inr (Some r)
          \<and> shift r = 11 \<and> unat (lastOffset r) = 1)"
proof -
  have run: "finish (addKey (newBlockFilterWriter bytePolicy) [1])
     = (Inr [1, 0, 0, 0, 0, 1, 0, 0, 0, 11],
        (newBlockFilterWriter bytePolicy)
          \<lparr>data := [1, 0, 0, 0, 0, 1, 0, 0, 0, 11], offsets := [0, 1]\<rparr>)"
    by (simp add: finish_def emit_eq appendOffset_eq flushed_def hasKeys_def
        newBlockFilterWriter_def addKey_def AddKey_def NewWriter_def bytePolicy_def
        filterBaseLog_def PutUint32_def Let_def)
  have len: "length [1, 0, 0, 0, 0, 1, 0, 0, 0, 11 :: byte] < 2 ^ 63"
    by simp
  from c9_finish_roundtrip [OF run len, of bytePolicy]
  obtain segs r where
    eq: "[1, 0, 0, 0, 0, 1, 0, 0, 0, 11] = segs @ concat (map PutUint32 [0, 1]) @ [of_nat filterBaseLog]"
    and r: "newBlockFilterReader [1, 0, 0, 0, 0, 1, 0, 0, 0, 11] bytePolicy = Inr (Some r)"
      "shift r = 11" "unat (lastOffset r) = length segs"
    by auto
  from arg_cong [OF eq, of length] have "length segs = 1"
    by simp
  with r run len show ?thesis
    by auto
qed

text \<open>
  Claim C8. A whole-table writer on which \<open>addKey\<close> was never called returns the empty
  (nil) result from \<open>finish\<close>, whatever calls of \<open>finishBlock\<close> it received. A per-block
  writer on which neither \<open>addKey\<close> nor \<open>finishBlock\<close> was called returns the blob of 5
  bytes that holds the sentinel 0 and the shift byte; the reader of that blob answers
  true for every block offset and key.
\<close>

theorem c8_empty_writers:
  "fst (t_finish (foldl (\<lambda>f b. snd (t_finishBlock f b)) (newTableFilterWriter P) bs)) = Inr []
   \<and> fst (finish (newBlockFilterWriter P)) = Inr [0, 0, 0, 0, 11]
   \<and> newBlockFilterReader [0, 0, 0, 0, 11] P
       = Inr (Some \<lparr>r_policy = P, lastOffset = 0, shift = 11\<rparr>)
   \<and> mayContain \<lparr>r_policy = P, lastOffset = 0, shift = 11\<rparr> [0, 0, 0, 0, 11] blockOffset key
       = Inr True"
proof -
  have "foldl (\<lambda>f b. snd (t_finishBlock f b)) g bs = g" for g
    by (induction bs) (simp_all add: t_finishBlock_def)
  then have t: "fst (t_finish (foldl (\<lambda>f b. snd (t_finishBlock f b)) (newTableFilterWriter P) bs))
      = Inr []"
    by (simp add: t_finish_def newTableFilterWriter_def)
  have b: "fst (finish (newBlockFilterWriter P)) = Inr [0, 0, 0, 0, 11]"
    by (simp add: finish_def appendOffset_eq hasKeys_def newBlockFilterWriter_def
        filterBaseLog_def PutUint32_def Let_def)
  have len: "length [0, 0, 0, 0, 11 :: byte] < 2 ^ 63"
    by simp
  have r: "newBlockFilterReader [0, 0, 0, 0, 11] P
       = Inr (Some \<lparr>r_policy = P, lastOffset = 0, shift = 11\<rparr>)"
    unfolding newBlockFilterReader_eq [OF len] by (simp add: sentinel_def Uint32_def)
  have "unat (lastOffset \<lparr>r_policy = P, lastOffset = 0, shift = 11\<rparr>) + 5
      \<le> length [0, 0, 0, 0, 11 :: byte]"
    by simp
  from mayContain_eq [OF this len]
  have "mayContain \<lparr>r_policy = P, lastOffset = 0, shift = 11\<rparr> [0, 0, 0, 0, 11] blockOffset key
       = Inr True"
    by (simp add: Let_def)
  with t b r show ?thesis
    by simp
qed

lemma offsets_ok_emit: "offsets_ok f \<Longrightarrow> offsets_ok (snd (emit f))"
  using length_flushed [of f]
  by (auto simp: offsets_ok_def emit_eq sorted_append unat_of_nat_u32 intro: order_trans)

lemma offsets_ok_finishBlock: "offsets_ok f \<Longrightarrow> offsets_ok (snd (finishBlock f b))"
proof (induction f b rule: finishBlock.induct)
  case (1 f b)
  show ?case
  proof (cases "length (offsets f) < unat (drop_bit filterBaseLog b)")
    case False
    then show ?thesis
      using "1.prems" by (simp add: finishBlock_done)
  next
    case True
    show ?thesis
    proof (cases "emit f")
      case (Pair e f1)
      then have ok1: "offsets_ok f1"
        using offsets_ok_emit [OF "1.prems"] by simp
      show ?thesis
      proof (cases e)
        case None
        then show ?thesis
          using "1.IH" [OF refl True Pair [symmetric]] ok1 Pair
          by (simp add: finishBlock_step [OF True])
      next
        case (Some err)
        then show ?thesis
          using ok1 Pair by (simp add: finishBlock_step [OF True])
      qed
    qed
  qed
qed

lemma offsets_ok_run: "offsets_ok f \<Longrightarrow> offsets_ok (foldl apply_call f calls)"
proof (induction calls arbitrary: f)
  case Nil
  then show ?case by simp
next
  case (Cons c calls)
  have "offsets_ok (apply_call f c)"
    using Cons.prems
    by (cases c) (simp_all add: offsets_ok_finishBlock, simp add: offsets_ok_def addKey_def)
  then show ?case
    using Cons.IH by simp
qed

lemma offsets_ok_new: "offsets_ok (newBlockFilterWriter P)"
  by (simp add: offsets_ok_def newBlockFilterWriter_def)

lemma finish_offsets_ok:
  assumes "offsets_ok f" and "length (flushed f) \<le> 2 ^ 32 - 1"
  shows "sorted (map unat (offsets (snd (finish f))))"
    and "\<forall>x \<in> set (offsets (snd (finish f))). unat x \<le> length (flushed f)"
proof -
  have d: "length (data f) \<le> 2 ^ 32 - 1"
    using assms(2) length_flushed [of f] by simp
  have old: "\<forall>x \<in> set (offsets f). unat x \<le> length (data f)"
    and srt: "sorted (map unat (offsets f))"
    using assms(1) by (simp_all add: offsets_ok_def)
  show "\<forall>x \<in> set (offsets (snd (finish f))). unat x \<le> length (flushed f)"
    using old length_flushed [of f] d assms(2)
    by (auto simp: finish_ok(2) [OF assms(2)] unat_of_nat_u32 intro: order_trans)
  show "sorted (map unat (offsets (snd (finish f))))"
    using old srt length_flushed [of f] d assms(2)
    by (auto simp: finish_ok(2) [OF assms(2)] unat_of_nat_u32 sorted_append intro: order_trans)
qed

text \<open>
  Claim C7. For every sequence of \<open>addKey\<close> and \<open>finishBlock\<close> calls on a new writer,
  followed by a successful \<open>finish\<close>: the blob is the segment data, then the offset
  table, then the shift byte; the table's length in bytes is divisible by 4 and its
  entries are those the writer recorded; the table is non-decreasing; its last entry,
  the sentinel, is the length of the segment data; every adjacent pair
  \<open>(low, high)\<close> has \<open>low \<le> high \<le> len(segments)\<close>.
\<close>

theorem c7_offset_table_well_formed:
  assumes "finish (foldl apply_call (newBlockFilterWriter P) calls) = (Inr blob, f')"
  shows "\<exists>segs. blob = segs @ concat (map PutUint32 (offsets f')) @ [of_nat filterBaseLog]
     \<and> length (concat (map PutUint32 (offsets f'))) mod 4 = 0
     \<and> (\<forall>i < length (offsets f'). tableEntry (concat (map PutUint32 (offsets f'))) i = offsets f' ! i)
     \<and> sorted (map unat (offsets f'))
     \<and> offsets f' \<noteq> []
     \<and> sentinel blob = last (offsets f')
     \<and> unat (last (offsets f')) = length segs
     \<and> (\<forall>i. Suc i < length (offsets f') \<longrightarrow>
           unat (offsets f' ! i) \<le> unat (offsets f' ! Suc i)
         \<and> unat (offsets f' ! Suc i) \<le> length segs)"
proof -
  let ?f = "foldl apply_call (newBlockFilterWriter P) calls"
  let ?offs = "offsets f'"
  have inv: "offsets_ok ?f"
    by (rule offsets_ok_run [OF offsets_ok_new])
  have ok: "length (flushed ?f) \<le> 2 ^ 32 - 1"
    using assms finish_err [of ?f] by (cases "length (flushed ?f) \<le> 2 ^ 32 - 1") auto
  have f': "f' = snd (finish ?f)" and b: "fst (finish ?f) = Inr blob"
    using assms by simp_all
  have blob: "blob = flushed ?f @ concat (map PutUint32 ?offs) @ [of_nat filterBaseLog]"
    using finish_ok(1) [OF ok] b f' by simp
  have ne: "?offs \<noteq> []" and lst: "unat (last ?offs) = length (flushed ?f)"
    using finish_offsets_last [OF ok] f' by simp_all
  have sen: "sentinel blob = last ?offs"
    unfolding blob by (rule sentinel_blob [OF ne])
  have srt: "sorted (map unat ?offs)"
    and bnd: "\<forall>x \<in> set ?offs. unat x \<le> length (flushed ?f)"
    using finish_offsets_ok [OF inv ok] f' by simp_all
  have ent: "tableEntry (concat (map PutUint32 ?offs)) i = ?offs ! i" if "i < length ?offs" for i
    using Uint32_table [OF that, of "[]"] by (simp add: tableEntry_def)
  have pairs: "unat (?offs ! i) \<le> unat (?offs ! Suc i) \<and> unat (?offs ! Suc i) \<le> length (flushed ?f)"
    if "Suc i < length ?offs" for i
  proof
    have "map unat ?offs ! i \<le> map unat ?offs ! Suc i"
      using srt that by (intro sorted_nth_mono) simp_all
    then show "unat (?offs ! i) \<le> unat (?offs ! Suc i)"
      using that by simp
    show "unat (?offs ! Suc i) \<le> length (flushed ?f)"
      using bnd that by (simp add: nth_mem)
  qed
  show ?thesis
    using blob ent srt ne sen lst pairs by (intro exI [of _ "flushed ?f"]) simp
qed

text \<open>The theorem at a build of two blocks with one key each.\<close>

theorem c7_offset_table_well_formed_witness:
  "finish (foldl apply_call (newBlockFilterWriter bytePolicy)
      [CallAddKey [1], CallFinishBlock 2048, CallAddKey [3], CallFinishBlock 4096])
     = (Inr [1, 3, 0, 0, 0, 0, 1, 0, 0, 0, 2, 0, 0, 0, 11],
        (newBlockFilterWriter bytePolicy)
          \<lparr>data := [1, 3, 0, 0, 0, 0, 1, 0, 0, 0, 2, 0, 0, 0, 11], offsets := [0, 1, 2]\<rparr>)
   \<and> sorted (map unat [0, 1, 2 :: uint32])
   \<and> sentinel [1, 3, 0, 0, 0, 0, 1, 0, 0, 0, 2, 0, 0, 0, 11] = 2"
proof -
  have run: "finish (foldl apply_call (newBlockFilterWriter bytePolicy)
      [CallAddKey [1], CallFinishBlock 2048, CallAddKey [3], CallFinishBlock 4096])
     = (Inr [1, 3, 0, 0, 0, 0, 1, 0, 0, 0, 2, 0, 0, 0, 11],
        (newBlockFilterWriter bytePolicy)
          \<lparr>data := [1, 3, 0, 0, 0, 0, 1, 0, 0, 0, 2, 0, 0, 0, 11], offsets := [0, 1, 2]\<rparr>)"
    by (simp add: finish_def finishBlock_eq emit_eq appendOffset_eq flushed_def hasKeys_def
        newBlockFilterWriter_def addKey_def AddKey_def NewWriter_def bytePolicy_def
        filterBaseLog_def PutUint32_def Let_def)
  show ?thesis
    using c7_offset_table_well_formed [OF run] run by auto
qed

subsection \<open>No false negatives\<close>

lemma boundary_append_lt: "i \<le> length segs \<Longrightarrow> boundary P (segs @ rest) i = boundary P segs i"
  by (simp add: boundary_def)

lemma boundary_all: "boundary P segs (length segs) = length (concat (map (segmentBytes P) segs))"
  by (simp add: boundary_def)

lemma represents_new: "represents P (newBlockFilterWriter P) []"
  by (simp add: represents_def newBlockFilterWriter_def NewWriter_def)

lemma represents_hasKeys: "represents P f segs \<Longrightarrow> hasKeys f = (pending (writer f) \<noteq> [])"
  by (simp add: represents_def hasKeys_def)

lemma represents_flushed:
  "represents P f segs \<Longrightarrow>
   flushed f = concat (map (segmentBytes P) (segs @ [pending (writer f)]))"
  by (simp add: flushed_def represents_hasKeys segmentBytes_def) (simp add: represents_def)

lemma represents_emit:
  assumes "represents P f segs" and "emit f = (None, f')"
  shows "represents P f' (segs @ [pending (writer f)])" and "pending (writer f') = []"
proof -
  have ok: "length (data f) \<le> 2 ^ 32 - 1"
    using assms(2) by (auto simp: emit_eq split: if_splits)
  have f': "f' = snd (emit f)"
    using assms(2) by simp
  have hk: "hasKeys f = (pending (writer f) \<noteq> [])"
    by (rule represents_hasKeys [OF assms(1)])
  show "pending (writer f') = []"
    using ok hk by (simp add: f' emit_eq)
  have d: "data f = concat (map (segmentBytes P) segs)"
    and n: "length (offsets f) = length segs"
    and o: "\<forall>i < length segs. unat (offsets f ! i) = boundary P segs i"
    and e: "encode (writer f) = Encode P BlockFilter"
    using assms(1) by (simp_all add: represents_def)
  have "unat ((offsets f @ [of_nat (length (data f))]) ! i)
      = boundary P (segs @ [pending (writer f)]) i" if "i < Suc (length segs)" for i
  proof (cases "i < length segs")
    case True
    then show ?thesis
      using o n by (simp add: nth_append boundary_append_lt)
  next
    case False
    with that have "i = length segs" by simp
    then show ?thesis
      using n ok d by (simp add: nth_append unat_of_nat_u32 boundary_def)
  qed
  then show "represents P f' (segs @ [pending (writer f)])"
    using ok hk e n represents_flushed [OF assms(1)]
    by (simp add: f' emit_eq represents_def)
qed

lemma represents_addKey:
  "represents P f segs \<Longrightarrow> represents P (addKey f k) segs"
  by (simp add: represents_def addKey_def AddKey_def)

lemma placed_addKey:
  assumes "placed (addKey f k) segs final"
  shows "placed f segs final" and "length segs < length final" and "k \<in> set (final ! length segs)"
  using assms by (auto simp: placed_def addKey_def AddKey_def)

lemma represents_addKeys:
  "represents P f segs \<Longrightarrow> represents P (foldl addKey f ks) segs"
  by (induction ks arbitrary: f) (simp_all add: represents_addKey)

lemma placed_addKeys:
  assumes "placed (foldl addKey f ks) segs final"
  shows "placed f segs final
    \<and> (\<forall>k \<in> set ks. length segs < length final \<and> k \<in> set (final ! length segs))"
  using assms
proof (induction ks arbitrary: f)
  case Nil
  then show ?case by simp
next
  case (Cons k ks)
  from Cons.IH [of "addKey f k"] Cons.prems
  have "placed (addKey f k) segs final"
    and rest: "\<forall>k \<in> set ks. length segs < length final \<and> k \<in> set (final ! length segs)"
    by simp_all
  from placed_addKey [OF this(1)] rest show ?case
    by simp
qed

lemma placed_emit:
  assumes "pending (writer f') = []" and "placed f' (segs @ [pending (writer f)]) final"
  shows "placed f segs final"
proof -
  from assms(2) have t: "take (Suc (length segs)) final = segs @ [pending (writer f)]"
    by (simp add: placed_def)
  then have len: "length segs < length final"
    by (metis length_append_singleton length_take lessI min_less_iff_conj)
  have "take (length segs) (take (Suc (length segs)) final) = segs"
    unfolding t by simp
  then have pre: "take (length segs) final = segs"
    by simp
  have "final ! length segs = (take (Suc (length segs)) final) ! length segs"
    by simp
  then have "final ! length segs = pending (writer f)"
    unfolding t by simp
  with pre len show ?thesis
    by (simp add: placed_def)
qed

lemma represents_finishBlock:
  assumes "represents P f segs" and "finishBlock f b = (None, f')"
  shows "\<exists>segs'. represents P f' segs'
    \<and> length segs' = max (length segs) (unat (drop_bit filterBaseLog b))
    \<and> (\<forall>final. placed f' segs' final \<longrightarrow> placed f segs final)"
  using assms
proof (induction "unat (drop_bit filterBaseLog b) - length (offsets f)" arbitrary: f segs)
  case 0
  have n: "length (offsets f) = length segs"
    using "0.prems"(1) by (simp add: represents_def)
  have "f' = f"
    using "0.prems"(2) "0.hyps" by (simp add: finishBlock_done)
  then show ?case
    using "0.prems"(1) "0.hyps" n by (intro exI [of _ segs]) (simp add: max_def)
next
  case (Suc k)
  have n: "length (offsets f) = length segs"
    using Suc.prems(1) by (simp add: represents_def)
  have lt: "length (offsets f) < unat (drop_bit filterBaseLog b)"
    using Suc.hyps(2) by simp
  obtain e f1 where em: "emit f = (e, f1)"
    by (cases "emit f")
  have e: "e = None" and rest: "finishBlock f1 b = (None, f')"
    using Suc.prems(2) em by (auto simp: finishBlock_step [OF lt] split: option.splits)
  note r1 = represents_emit [OF Suc.prems(1) em [unfolded e]]
  have n1: "length (offsets f1) = Suc (length (offsets f))"
    using r1(1) n by (simp add: represents_def)
  have k: "k = unat (drop_bit filterBaseLog b) - length (offsets f1)"
    using Suc.hyps(2) n1 by simp
  from Suc.hyps(1) [OF k r1(1) rest]
  obtain segs' where s': "represents P f' segs'"
    "length segs' = max (length (segs @ [pending (writer f)])) (unat (drop_bit filterBaseLog b))"
    "\<forall>final. placed f' segs' final \<longrightarrow> placed f1 (segs @ [pending (writer f)]) final"
    by blast
  have "length segs' = max (length segs) (unat (drop_bit filterBaseLog b))"
    using s'(2) lt n by simp
  moreover have "\<forall>final. placed f' segs' final \<longrightarrow> placed f segs final"
    using s'(3) placed_emit [OF r1(2)] by blast
  ultimately show ?case
    using s'(1) by blast
qed

lemma unat_drop_bit_div: "unat (drop_bit n w) = unat w div 2 ^ n"
  using unat_drop_bit_eq [of n w] drop_bit_eq_div [of n "unat w"] by (rule trans)

lemma unat_drop_bit_mono:
  fixes a b :: uint64
  assumes "a \<le> b"
  shows "unat (drop_bit n a) \<le> unat (drop_bit n b)"
proof -
  have "unat a \<le> unat b"
    using assms by (simp add: word_le_nat_alt)
  then have "unat a div 2 ^ n \<le> unat b div 2 ^ n"
    by (rule div_le_mono)
  then show ?thesis
    by (simp only: unat_drop_bit_div)
qed

lemma represents_feed:
  assumes "represents P f segs"
    and "length segs = unat (drop_bit filterBaseLog s0)"
    and "sorted (s0 # map snd bs)"
    and "feed f bs = (None, f1)"
  shows "\<exists>segs1. represents P f1 segs1
    \<and> (\<forall>final. placed f1 segs1 final \<longrightarrow>
          placed f segs final
        \<and> (\<forall>i < length bs. \<forall>k \<in> set (fst (bs ! i)).
              unat (drop_bit filterBaseLog ((s0 # map snd bs) ! i)) < length final
            \<and> k \<in> set (final ! unat (drop_bit filterBaseLog ((s0 # map snd bs) ! i)))))"
  using assms
proof (induction bs arbitrary: f segs s0)
  case Nil
  then show ?case by auto
next
  case (Cons blk bs)
  obtain ks off where blk: "blk = (ks, off)"
    by (cases blk)
  let ?fa = "foldl addKey f ks"
  obtain e fb where fb: "finishBlock ?fa off = (e, fb)"
    by (cases "finishBlock ?fa off")
  have e: "e = None" and rest: "feed fb bs = (None, f1)"
    using Cons.prems(4) fb by (auto simp: blk split: option.splits)
  have ra: "represents P ?fa segs"
    by (rule represents_addKeys [OF Cons.prems(1)])
  from represents_finishBlock [OF ra fb [unfolded e]]
  obtain segsb where sb: "represents P fb segsb"
    "length segsb = max (length segs) (unat (drop_bit filterBaseLog off))"
    "\<forall>final. placed fb segsb final \<longrightarrow> placed ?fa segs final"
    by blast
  have "s0 \<le> off"
    using Cons.prems(3) by (simp add: blk)
  then have "length segs \<le> unat (drop_bit filterBaseLog off)"
    unfolding Cons.prems(2) by (rule unat_drop_bit_mono)
  then have lb: "length segsb = unat (drop_bit filterBaseLog off)"
    using sb(2) by simp
  have srt: "sorted (off # map snd bs)"
    using Cons.prems(3) by (simp add: blk)
  from Cons.IH [OF sb(1) lb srt rest]
  obtain segs1 where s1: "represents P f1 segs1"
    "\<forall>final. placed f1 segs1 final \<longrightarrow>
          placed fb segsb final
        \<and> (\<forall>i < length bs. \<forall>k \<in> set (fst (bs ! i)).
              unat (drop_bit filterBaseLog ((off # map snd bs) ! i)) < length final
            \<and> k \<in> set (final ! unat (drop_bit filterBaseLog ((off # map snd bs) ! i))))"
    by blast
  have "placed f segs final
        \<and> (\<forall>i < length (blk # bs). \<forall>k \<in> set (fst ((blk # bs) ! i)).
              unat (drop_bit filterBaseLog ((s0 # map snd (blk # bs)) ! i)) < length final
            \<and> k \<in> set (final ! unat (drop_bit filterBaseLog ((s0 # map snd (blk # bs)) ! i))))"
    if pl: "placed f1 segs1 final" for final
  proof -
    from s1(2) pl have plb: "placed fb segsb final"
      and later: "\<forall>i < length bs. \<forall>k \<in> set (fst (bs ! i)).
              unat (drop_bit filterBaseLog ((off # map snd bs) ! i)) < length final
            \<and> k \<in> set (final ! unat (drop_bit filterBaseLog ((off # map snd bs) ! i)))"
      by blast+
    from sb(3) plb have "placed ?fa segs final"
      by blast
    from placed_addKeys [OF this] have pf: "placed f segs final"
      and first: "\<forall>k \<in> set ks. length segs < length final \<and> k \<in> set (final ! length segs)"
      by blast+
    have "unat (drop_bit filterBaseLog ((s0 # map snd (blk # bs)) ! i)) < length final
        \<and> k \<in> set (final ! unat (drop_bit filterBaseLog ((s0 # map snd (blk # bs)) ! i)))"
      if "i < length (blk # bs)" and "k \<in> set (fst ((blk # bs) ! i))" for i k
    proof (cases i)
      case 0
      then show ?thesis
        using that first Cons.prems(2) by (simp add: blk)
    next
      case (Suc j)
      then show ?thesis
        using that later by (simp add: blk)
    qed
    with pf show ?thesis
      by blast
  qed
  with s1(1) show ?case
    by blast
qed

lemma finish_no_keys_blob:
  assumes "represents P f segs" and "\<not> hasKeys f" and "finish f = (Inr blob, f')"
  shows "blob_of P blob segs"
proof -
  have fl: "flushed f = data f"
    using assms(2) by (simp add: flushed_def)
  have ok: "length (data f) \<le> 2 ^ 32 - 1"
    using assms(3) finish_err [of f] fl by (cases "length (data f) \<le> 2 ^ 32 - 1") auto
  have d: "data f = concat (map (segmentBytes P) segs)"
    and n: "length (offsets f) = length segs"
    and o: "\<forall>i < length segs. unat (offsets f ! i) = boundary P segs i"
    using assms(1) by (simp_all add: represents_def)
  let ?offs = "offsets f @ [of_nat (length (data f))]"
  have offs: "offsets (snd (finish f)) = ?offs"
    using finish_ok(2) [of f] ok fl assms(2) by simp
  have blob: "blob = data f @ concat (map PutUint32 ?offs) @ [of_nat filterBaseLog]"
    using finish_ok(1) [of f] ok fl assms(3) unfolding offs by simp
  have "unat (?offs ! i) = boundary P segs i" if "i \<le> length segs" for i
  proof (cases "i < length segs")
    case True
    then show ?thesis
      using o n by (simp add: nth_append)
  next
    case False
    with that have "i = length segs" by simp
    then show ?thesis
      using n ok d by (simp add: nth_append unat_of_nat_u32 boundary_def)
  qed
  then show ?thesis
    unfolding blob_of_def using blob d n by (intro exI [of _ ?offs]) simp
qed

lemma finish_after_emit:
  assumes "hasKeys f" and "emit f = (None, f1)"
  shows "finish f = finish f1"
proof -
  have "\<not> hasKeys f1"
    using assms(2) by (auto simp: emit_eq hasKeys_def split: if_splits)
  then show ?thesis
    using assms by (simp add: finish_def)
qed

lemma finish_blob:
  assumes "represents P f segs" and "finish f = (Inr blob, f')"
  shows "\<exists>final. blob_of P blob final \<and> placed f segs final"
proof (cases "hasKeys f")
  case False
  then have "pending (writer f) = []"
    using represents_hasKeys [OF assms(1)] by simp
  then have "placed f segs segs"
    by (simp add: placed_def)
  with finish_no_keys_blob [OF assms(1) False assms(2)] show ?thesis
    by blast
next
  case True
  have ok: "length (data f) \<le> 2 ^ 32 - 1"
    using assms(2) finish_err [of f] length_flushed [of f]
    by (cases "length (flushed f) \<le> 2 ^ 32 - 1") auto
  obtain f1 where em: "emit f = (None, f1)"
    using ok by (simp add: emit_eq)
  note r1 = represents_emit [OF assms(1) em]
  have nk: "\<not> hasKeys f1"
    using represents_hasKeys [OF r1(1)] r1(2) by simp
  have "finish f1 = (Inr blob, f')"
    using finish_after_emit [OF True em] assms(2) by simp
  from finish_no_keys_blob [OF r1(1) nk this]
  have "blob_of P blob (segs @ [pending (writer f)])" .
  moreover have "placed f segs (segs @ [pending (writer f)])"
    by (simp add: placed_def)
  ultimately show ?thesis
    by blast
qed

lemma concat_segment:
  assumes "i < length xss"
  shows "drop (length (concat (take i xss))) (take (length (concat (take (Suc i) xss))) (concat xss))
    = xss ! i"
proof -
  have "xss = take (Suc i) xss @ drop (Suc i) xss"
    by simp
  then have "concat xss = concat (take (Suc i) xss) @ concat (drop (Suc i) xss)"
    by (metis concat_append)
  then have "take (length (concat (take (Suc i) xss))) (concat xss) = concat (take (Suc i) xss)"
    by simp
  also have "\<dots> = concat (take i xss) @ xss ! i"
    using assms by (simp add: take_Suc_conv_app_nth)
  finally show ?thesis
    by simp
qed

lemma blob_of_query:
  assumes bo: "blob_of P blob segs"
    and len: "length blob < 2 ^ 63"
    and rd: "newBlockFilterReader blob P = Inr (Some r)"
    and sound: "\<forall>ks k. k \<in> set ks \<longrightarrow> MayContain P BlockFilter (Encode P BlockFilter ks) k"
    and idx: "unat (drop_bit filterBaseLog q) < length segs"
    and k: "k \<in> set (segs ! unat (drop_bit filterBaseLog q))"
  shows "mayContain r blob q k = Inr True"
proof -
  let ?segments = "concat (map (segmentBytes P) segs)"
  let ?i = "unat (drop_bit filterBaseLog q)"
  from bo obtain offs where
    blob: "blob = ?segments @ concat (map PutUint32 offs) @ [of_nat filterBaseLog]"
    and n: "length offs = Suc (length segs)"
    and o: "\<forall>i \<le> length segs. unat (offs ! i) = boundary P segs i"
    unfolding blob_of_def by blast
  have ne: "offs \<noteq> []"
    using n by auto
  have sen: "sentinel blob = last offs"
    unfolding blob by (rule sentinel_blob [OF ne])
  have "last offs = offs ! length segs"
    using n ne by (simp add: last_conv_nth)
  then have S: "unat (sentinel blob) = length ?segments"
    using o sen by (simp add: boundary_all)
  note r = reader_Some [OF rd len]
  have lo: "unat (lastOffset r) = length ?segments"
    using S by (simp add: r(1))
  have sh: "unat (shift r) = filterBaseLog"
    by (simp add: r(1) blob unat_ucast_8_32 filterBaseLog_def)
  have s5: "unat (lastOffset r) + 5 \<le> length blob"
    using r(2) by (simp add: r(1))
  have seg: "take (unat (lastOffset r)) blob = ?segments"
    unfolding lo by (simp add: blob)
  have tab: "drop (unat (lastOffset r)) (butlast blob) = concat (map PutUint32 offs)"
    unfolding lo by (simp add: blob butlast_append)
  have index: "unat q div 2 ^ unat (shift r) = ?i"
    unfolding sh by (simp only: unat_drop_bit_div)
  have N: "length (concat (map PutUint32 offs)) div 4 - 1 = length segs"
    using n by simp
  have ent: "tableEntry (concat (map PutUint32 offs)) j = offs ! j" if "j < length offs" for j
    using Uint32_table [OF that, of "[]"] by (simp add: tableEntry_def)
  have low: "unat (tableEntry (concat (map PutUint32 offs)) ?i) = boundary P segs ?i"
    using ent [of ?i] o idx n by simp
  have high: "unat (tableEntry (concat (map PutUint32 offs)) (Suc ?i)) = boundary P segs (Suc ?i)"
    using ent [of "Suc ?i"] o idx n by simp
  have slice: "drop (boundary P segs ?i) (take (boundary P segs (Suc ?i)) ?segments)
      = segmentBytes P (segs ! ?i)"
    using concat_segment [of ?i "map (segmentBytes P) segs"] idx
    by (simp add: boundary_def take_map)
  have "segs ! ?i \<noteq> []"
    using k by auto
  then have enc: "segmentBytes P (segs ! ?i) = Encode P BlockFilter (segs ! ?i)"
    by (simp add: segmentBytes_def)
  have yes: "MayContain P BlockFilter (segmentBytes P (segs ! ?i)) k"
    unfolding enc using sound k by blast
  show ?thesis
    unfolding mayContain_eq [OF s5 len] seg tab index
    using idx yes by (simp add: low high slice Let_def r(1) n)
qed

lemma unat_drop_bit_filterBaseLog: "unat (drop_bit filterBaseLog (b :: uint64)) < 2 ^ 53"
proof -
  have "unat b < 2 ^ 64"
    using unsigned_less [of b] by simp
  then have "unat b div 2 ^ 11 < 2 ^ 53"
    by simp
  then show ?thesis
    by (simp only: unat_drop_bit_div filterBaseLog_def)
qed

lemma offsets_addKeys: "offsets (foldl addKey f ks) = offsets f"
  by (induction ks arbitrary: f) (simp_all add: addKey_def)

lemma feed_length_offsets:
  assumes "feed f bs = (None, f1)" and "length (offsets f) < 2 ^ 53"
  shows "length (offsets f1) < 2 ^ 53"
  using assms
proof (induction bs arbitrary: f)
  case Nil
  then show ?case by simp
next
  case (Cons blk bs)
  obtain ks off where blk: "blk = (ks, off)"
    by (cases blk)
  obtain e fb where fb: "finishBlock (foldl addKey f ks) off = (e, fb)"
    by (cases "finishBlock (foldl addKey f ks) off")
  have e: "e = None" and rest: "feed fb bs = (None, f1)"
    using Cons.prems(1) fb by (auto simp: blk split: option.splits)
  have "length (offsets fb) < 2 ^ 53"
    using finishBlock_length_offsets [OF fb [unfolded e]] Cons.prems(2)
      unat_drop_bit_filterBaseLog [of off]
    by (simp add: offsets_addKeys)
  from Cons.IH [OF rest this] show ?case .
qed

lemma finish_length_blob:
  assumes "finish f = (Inr blob, f')" and "length (offsets f) < 2 ^ 53"
  shows "length blob < 2 ^ 63"
proof -
  have ok: "length (flushed f) \<le> 2 ^ 32 - 1"
    using assms(1) finish_err [of f] by (cases "length (flushed f) \<le> 2 ^ 32 - 1") auto
  have "length (offsets (snd (finish f))) \<le> length (offsets f) + 2"
    by (simp add: finish_ok(2) [OF ok])
  moreover have "length blob = length (flushed f) + 4 * length (offsets (snd (finish f))) + 1"
    using finish_ok(1) [OF ok] assms(1) by simp
  ultimately show ?thesis
    using ok assms(2) by simp
qed

lemma blockStart_nth:
  "i < length blocks \<Longrightarrow> (0 # map snd blocks) ! i = blockStart blocks i"
  by (cases i) (simp_all add: blockStart_def)

lemma bytePolicy_sound:
  "\<forall>ks k. k \<in> set ks \<longrightarrow> MayContain bytePolicy BlockFilter (Encode bytePolicy BlockFilter ks) k"
  by (auto simp: bytePolicy_def)

text \<open>
  Claim C1, amended. For every sequence of blocks fed to a new per-block writer with
  non-decreasing offsets, where \<open>finishBlock\<close> is given the offset at which the block
  ends and the next one starts, and for every policy without false negatives: after a
  successful \<open>finish\<close> the blob has a reader, and \<open>mayContain\<close> with the offset at which a
  block starts is true for every key added to that block.
\<close>

theorem c1_no_false_negatives:
  assumes sound: "\<forall>ks k. k \<in> set ks \<longrightarrow> MayContain P BlockFilter (Encode P BlockFilter ks) k"
    and mono: "sorted (map snd blocks)"
    and run: "feed (newBlockFilterWriter P) blocks = (None, f)"
    and fin: "finish f = (Inr blob, f')"
  shows "\<exists>r. newBlockFilterReader blob P = Inr (Some r)
    \<and> (\<forall>i < length blocks. \<forall>k \<in> set (fst (blocks ! i)).
          mayContain r blob (blockStart blocks i) k = Inr True)"
proof -
  have "length (offsets (newBlockFilterWriter P)) < 2 ^ 53"
    by (simp add: newBlockFilterWriter_def)
  from feed_length_offsets [OF run this] have "length (offsets f) < 2 ^ 53" .
  from finish_length_blob [OF fin this] have len: "length blob < 2 ^ 63" .
  from finish_reader [OF fin len, of P] obtain r where
    rd: "newBlockFilterReader blob P = Inr (Some r)"
    by blast
  have z: "length ([] :: byte list list list) = unat (drop_bit filterBaseLog (0 :: uint64))"
    by simp
  have srt: "sorted ((0 :: uint64) # map snd blocks)"
    using mono by simp
  from represents_feed [OF represents_new z srt run]
  obtain segs1 where s1: "represents P f segs1"
    "\<forall>final. placed f segs1 final \<longrightarrow>
        (\<forall>i < length blocks. \<forall>k \<in> set (fst (blocks ! i)).
              unat (drop_bit filterBaseLog ((0 # map snd blocks) ! i)) < length final
            \<and> k \<in> set (final ! unat (drop_bit filterBaseLog ((0 # map snd blocks) ! i))))"
    by blast
  from finish_blob [OF s1(1) fin] obtain final where
    bo: "blob_of P blob final" and pl: "placed f segs1 final"
    by blast
  have "mayContain r blob (blockStart blocks i) k = Inr True"
    if "i < length blocks" and "k \<in> set (fst (blocks ! i))" for i k
  proof -
    from s1(2) pl that
    have "unat (drop_bit filterBaseLog ((0 # map snd blocks) ! i)) < length final"
      and "k \<in> set (final ! unat (drop_bit filterBaseLog ((0 # map snd blocks) ! i)))"
      by blast+
    then have "unat (drop_bit filterBaseLog (blockStart blocks i)) < length final"
      and "k \<in> set (final ! unat (drop_bit filterBaseLog (blockStart blocks i)))"
      unfolding blockStart_nth [OF that(1)] .
    from blob_of_query [OF bo len rd sound this] show ?thesis .
  qed
  with rd show ?thesis
    by blast
qed

text \<open>
  Claim C1 as it is stated asks the key under the offset given to \<open>finishBlock\<close> after
  it. With the key 1 added before \<open>finishBlock(2048)\<close> and the key 3 before
  \<open>finishBlock(4096)\<close>, the segment of the window of 2048 holds the key 3 only: the
  policy is right about that segment, and the query for the key 1 under 2048 is false.
\<close>

theorem c1_no_false_negatives_counterexample:
  "sorted (map snd [([[1 :: byte]], 2048 :: uint64), ([[3]], 4096)])
   \<and> fst (feed (newBlockFilterWriter bytePolicy) [([[1]], 2048), ([[3]], 4096)]) = None
   \<and> fst (finish (snd (feed (newBlockFilterWriter bytePolicy) [([[1]], 2048), ([[3]], 4096)])))
       = Inr [1, 3, 0, 0, 0, 0, 1, 0, 0, 0, 2, 0, 0, 0, 11]
   \<and> newBlockFilterReader [1, 3, 0, 0, 0, 0, 1, 0, 0, 0, 2, 0, 0, 0, 11] bytePolicy
       = Inr (Some \<lparr>r_policy = bytePolicy, lastOffset = 2, shift = 11\<rparr>)
   \<and> MayContain bytePolicy BlockFilter (Encode bytePolicy BlockFilter [[3]]) [3]
   \<and> mayContain \<lparr>r_policy = bytePolicy, lastOffset = 2, shift = 11\<rparr>
        [1, 3, 0, 0, 0, 0, 1, 0, 0, 0, 2, 0, 0, 0, 11] 2048 [1] = Inr False"
proof -
  let ?D = "[1, 3, 0, 0, 0, 0, 1, 0, 0, 0, 2, 0, 0, 0, 11 :: byte]"
  let ?r = "\<lparr>r_policy = bytePolicy, lastOffset = 2, shift = 11\<rparr>"
  have run: "feed (newBlockFilterWriter bytePolicy) [([[1]], 2048), ([[3]], 4096)]
      = (None, (newBlockFilterWriter bytePolicy)\<lparr>data := [1, 3], offsets := [0, 1]\<rparr>)"
    by (simp add: finishBlock_eq emit_eq flushed_def hasKeys_def
        newBlockFilterWriter_def addKey_def AddKey_def NewWriter_def bytePolicy_def
        filterBaseLog_def Let_def)
  have fin: "fst (finish ((newBlockFilterWriter bytePolicy)\<lparr>data := [1, 3], offsets := [0, 1]\<rparr>))
      = Inr ?D"
    by (simp add: finish_def appendOffset_eq hasKeys_def newBlockFilterWriter_def
        filterBaseLog_def PutUint32_def Let_def)
  have len: "length ?D < 2 ^ 63" by simp
  have r: "newBlockFilterReader ?D bytePolicy = Inr (Some ?r)"
    unfolding newBlockFilterReader_eq [OF len] by (simp add: sentinel_def Uint32_def)
  have "unat (lastOffset ?r) + 5 \<le> length ?D"
    by simp
  from mayContain_eq [OF this len, of 2048 "[1]"]
  have q: "mayContain ?r ?D 2048 [1] = Inr False"
    by (simp add: tableEntry_def Uint32_def bytePolicy_def Let_def)
  show ?thesis
    using run fin r q by (simp add: bytePolicy_def)
qed

text \<open>
  The theorem at the same two blocks: the key 1 is found under 0, where its block
  starts, and the key 3 under 2048.
\<close>

theorem c1_no_false_negatives_witness:
  "sorted (map snd [([[1 :: byte]], 2048 :: uint64), ([[3]], 4096)])
   \<and> feed (newBlockFilterWriter bytePolicy) [([[1]], 2048), ([[3]], 4096)]
       = (None, (newBlockFilterWriter bytePolicy)\<lparr>data := [1, 3], offsets := [0, 1]\<rparr>)
   \<and> fst (finish ((newBlockFilterWriter bytePolicy)\<lparr>data := [1, 3], offsets := [0, 1]\<rparr>))
       = Inr [1, 3, 0, 0, 0, 0, 1, 0, 0, 0, 2, 0, 0, 0, 11]
   \<and> newBlockFilterReader [1, 3, 0, 0, 0, 0, 1, 0, 0, 0, 2, 0, 0, 0, 11] bytePolicy
       = Inr (Some \<lparr>r_policy = bytePolicy, lastOffset = 2, shift = 11\<rparr>)
   \<and> blockStart [([[1]], 2048), ([[3]], 4096)] 0 = 0
   \<and> blockStart [([[1]], 2048), ([[3]], 4096)] 1 = 2048
   \<and> mayContain \<lparr>r_policy = bytePolicy, lastOffset = 2, shift = 11\<rparr>
        [1, 3, 0, 0, 0, 0, 1, 0, 0, 0, 2, 0, 0, 0, 11] 0 [1] = Inr True
   \<and> mayContain \<lparr>r_policy = bytePolicy, lastOffset = 2, shift = 11\<rparr>
        [1, 3, 0, 0, 0, 0, 1, 0, 0, 0, 2, 0, 0, 0, 11] 2048 [3] = Inr True"
proof -
  let ?D = "[1, 3, 0, 0, 0, 0, 1, 0, 0, 0, 2, 0, 0, 0, 11 :: byte]"
  let ?r = "\<lparr>r_policy = bytePolicy, lastOffset = 2, shift = 11\<rparr>"
  let ?bs = "[([[1 :: byte]], 2048 :: uint64), ([[3]], 4096)]"
  let ?f = "(newBlockFilterWriter bytePolicy)\<lparr>data := [1, 3], offsets := [0, 1]\<rparr>"
  have mono: "sorted (map snd ?bs)"
    by simp
  have run: "feed (newBlockFilterWriter bytePolicy) ?bs = (None, ?f)"
    by (simp add: finishBlock_eq emit_eq flushed_def hasKeys_def
        newBlockFilterWriter_def addKey_def AddKey_def NewWriter_def bytePolicy_def
        filterBaseLog_def Let_def)
  have fin1: "fst (finish ?f) = Inr ?D"
    by (simp add: finish_def appendOffset_eq hasKeys_def newBlockFilterWriter_def
        filterBaseLog_def PutUint32_def Let_def)
  then have fin: "finish ?f = (Inr ?D, snd (finish ?f))"
    by (simp add: prod_eq_iff)
  have len: "length ?D < 2 ^ 63" by simp
  have r: "newBlockFilterReader ?D bytePolicy = Inr (Some ?r)"
    unfolding newBlockFilterReader_eq [OF len] by (simp add: sentinel_def Uint32_def)
  from c1_no_false_negatives [OF bytePolicy_sound mono run fin]
  have all: "\<forall>i < length ?bs. \<forall>k \<in> set (fst (?bs ! i)).
      mayContain ?r ?D (blockStart ?bs i) k = Inr True"
    unfolding r by simp
  have b: "blockStart ?bs 0 = 0" "blockStart ?bs 1 = 2048"
    by (simp_all add: blockStart_def)
  from all [rule_format, of 0 "[1]"] all [rule_format, of 1 "[3]"]
  have "mayContain ?r ?D 0 [1] = Inr True" "mayContain ?r ?D 2048 [3] = Inr True"
    unfolding b by simp_all
  with mono run fin1 r b show ?thesis
    by simp
qed

end
